theory Spec2Isabelle
  imports Main "HOL-Library.Word"
begin

section \<open>The NILFS inode file (fs/nilfs2/ifile.c)\<close>

text \<open>
  The inode file is a metadata file of fixed-size on-disk inodes, managed by the
  persistent object allocator (alloc.c) and read through buffer heads. This theory
  embeds the four operations of ifile.c: \<open>nilfs_ifile_create_inode\<close>,
  \<open>nilfs_ifile_delete_inode\<close>, \<open>nilfs_ifile_get_inode_block\<close> and
  \<open>nilfs_ifile_compare\<close> (with its helper \<open>nilfs_ifile_compare_block\<close>).

  Entry numbers, block offsets and counts are natural numbers: the model is the code
  as long as no \<open>ino_t\<close> or \<open>__u64\<close> value wraps around (so the last inode of a
  block, \<open>nr + mi_entries_per_block - 1\<close>, is taken not to wrap: a block holds at
  least one entry). The one subtraction of the code that wraps on inputs it can get,
  \<open>maxchanges - nc\<close> on \<open>size_t\<close>, has its wrap-around written out. Values of type \<open>ssize_t\<close> that carry either a count or a negative
  error code are integers.
\<close>

subsection \<open>Data\<close>

datatype errno = EIO | ENOMEM | ENOSPC | ENOENT | EINVAL

fun errno_code :: "errno \<Rightarrow> int" where
  "errno_code EIO = 5"
| "errno_code ENOMEM = 12"
| "errno_code ENOSPC = 28"
| "errno_code ENOENT = 2"
| "errno_code EINVAL = 22"

text \<open>The C return value \<open>-E\<close> of an error \<open>E\<close>.\<close>

definition err :: "errno \<Rightarrow> int" where
  "err e = - errno_code e"

text \<open>A buffer head is known by its identity.\<close>

type_synonym bh = nat

text \<open>
  The on-disk inode, \<open>struct nilfs_inode\<close>: the four fields that ifile.c reads or
  writes, with the widths of the on-disk format.
\<close>

record nilfs_inode =
  i_links_count :: "16 word"
  i_flags :: "32 word"
  i_ctime :: "64 word"
  i_ctime_nsec :: "32 word"

text \<open>\<open>struct nilfs_ifile_change\<close> of ifile.h; a NULL pointer is \<open>None\<close>.\<close>

record nilfs_ifile_change =
  ino :: nat
  bh1 :: "bh option"
  bh2 :: "bh option"

text \<open>
  \<open>struct nilfs_bmap_diff\<close>, as ifile.c uses it: the block offset and the block
  pointer on each side.
\<close>

record nilfs_bmap_diff =
  key :: nat
  ptr1 :: nat
  ptr2 :: nat

text \<open>
  Modelled from the spec: the constant \<open>NILFS_BMAP_INVALID_PTR\<close> of bmap.h is not
  part of the sources at hand. The differ tells for each side whether the block exists;
  the pointer value that says "does not exist" is the reserved pointer 0.
\<close>

definition NILFS_BMAP_INVALID_PTR :: nat where
  "NILFS_BMAP_INVALID_PTR = 0"

text \<open>
  The calls that ifile.c makes to its collaborators (allocator, block store, block-map
  differ, logging), in the order they happen. Allocator and block calls carry the
  identity of the inode file they are made on.
\<close>

datatype call =
    Prepare_alloc_entry nat
  | Abort_alloc_entry nat nat
  | Commit_alloc_entry nat nat
  | Prepare_free_entry nat nat
  | Abort_free_entry nat nat
  | Commit_free_entry nat nat
  | Get_entry_block nat nat bool
  | Get_bh bh
  | Brelse "bh option"
  | Mark_buffer_dirty bh
  | Mdt_mark_dirty nat
  | Store_i_flags bh nat
  | Bmap_compare nat nat
  | Warn_on
  | Nilfs_error
  | Nilfs_warning

text \<open>
  An inode file, \<open>struct inode *ifile\<close>, with what the code reads from it and from
  the collaborators behind it:
  \<^item> \<open>mi_entries_per_block\<close> of its \<open>nilfs_mdt_info\<close>;
  \<^item> the allocator's layout: \<open>palloc_block_type k\<close> is \<open>Some nr\<close> when the block at
    offset \<open>k\<close> is an entry block whose first entry is \<open>nr\<close>
    (\<open>NILFS_PALLOC_ENTRY_BLOCK\<close>) and \<open>None\<close> for any other block type;
    \<open>palloc_entry_blkoff\<close> is the block offset of an entry and \<open>palloc_entry_index\<close>
    its position inside that block;
  \<^item> \<open>palloc_find_slot\<close>, the allocator's search for a free slot given the slots in use;
  \<^item> \<open>entry_block nr create\<close>, the block store's answer when the block of entry
    \<open>nr\<close> is read;
  \<^item> \<open>valid_inode\<close>, the macro \<open>NILFS_VALID_INODE\<close>;
  \<^item> \<open>i_bmap\<close>, its block mapping (offset to block pointer), which maps nothing from
    offset \<open>i_bmap_end\<close> on, and \<open>bmap_fault\<close>, the failure of a lookup in it.
\<close>

record ifile =
  i_id :: nat
  mi_entries_per_block :: nat
  palloc_block_type :: "nat \<Rightarrow> nat option"
  palloc_entry_blkoff :: "nat \<Rightarrow> nat"
  palloc_entry_index :: "nat \<Rightarrow> nat"
  palloc_find_slot :: "nat set \<Rightarrow> errno + nat"
  entry_block :: "nat \<Rightarrow> bool \<Rightarrow> errno + bh"
  valid_inode :: "nat \<Rightarrow> bool"
  i_bmap :: "nat \<Rightarrow> nat"
  i_bmap_end :: nat
  bmap_fault :: "nat \<Rightarrow> errno option"

text \<open>
  The state that the operations change: the reference count, the contents (entries by
  position) and the dirty flag of every buffer head, the dirty flag and the allocator's
  bitmap of every inode file (slots allocated, slots reserved by a prepared request),
  whether a free page can be had, and the calls made so far.
\<close>

record kstate =
  b_count :: "bh \<Rightarrow> nat"
  b_data :: "bh \<Rightarrow> nat \<Rightarrow> nilfs_inode"
  b_dirty :: "bh \<Rightarrow> bool"
  mdt_dirty :: "nat \<Rightarrow> bool"
  pa_allocated :: "nat \<Rightarrow> nat set"
  pa_reserved :: "nat \<Rightarrow> nat set"
  page_avail :: bool
  calls :: "call list"

subsection \<open>The collaborators\<close>

definition log_call :: "call \<Rightarrow> kstate \<Rightarrow> kstate" where
  "log_call c s = s\<lparr>calls := calls s @ [c]\<rparr>"

text \<open>
  Modelled from the spec: \<open>get_bh\<close> and \<open>brelse\<close> of buffer_head.h are not part of
  the sources at hand. A block handle is reference counted; taking a second reference
  increments the count, releasing one decrements it, and \<open>brelse(NULL)\<close> is ignored
  (as the comment in \<open>nilfs_ifile_compare_block\<close> says).
\<close>

definition get_bh :: "bh \<Rightarrow> kstate \<Rightarrow> kstate" where
  "get_bh b s = log_call (Get_bh b) (s\<lparr>b_count := (b_count s)(b := b_count s b + 1)\<rparr>)"

definition brelse :: "bh option \<Rightarrow> kstate \<Rightarrow> kstate" where
  "brelse bo s =
     (case bo of
        None \<Rightarrow> log_call (Brelse None) s
      | Some b \<Rightarrow> log_call (Brelse (Some b)) (s\<lparr>b_count := (b_count s)(b := b_count s b - 1)\<rparr>))"

text \<open>
  Modelled from the spec: \<open>mark_buffer_dirty\<close> and \<open>nilfs_mdt_mark_dirty\<close> (mdt.h)
  are not part of the sources at hand; they mark the block, and the table's own
  metadata, dirty for persistence.
\<close>

definition mark_buffer_dirty :: "bh \<Rightarrow> kstate \<Rightarrow> kstate" where
  "mark_buffer_dirty b s = log_call (Mark_buffer_dirty b) (s\<lparr>b_dirty := (b_dirty s)(b := True)\<rparr>)"

definition nilfs_mdt_mark_dirty :: "ifile \<Rightarrow> kstate \<Rightarrow> kstate" where
  "nilfs_mdt_mark_dirty f s =
     log_call (Mdt_mark_dirty (i_id f)) (s\<lparr>mdt_dirty := (mdt_dirty s)(i_id f := True)\<rparr>)"

text \<open>
  Modelled from the spec: \<open>nilfs_palloc_get_entry_block\<close> (alloc.c) is not part of
  the sources at hand. It is the block store's fetch of the block that holds an entry,
  creating it if asked to: it answers a block handle, with a reference taken for the
  caller, or a failure, and then leaves the caller's pointer alone.
\<close>

definition nilfs_palloc_get_entry_block ::
  "ifile \<Rightarrow> nat \<Rightarrow> bool \<Rightarrow> kstate \<Rightarrow> (errno + bh) \<times> kstate" where
  "nilfs_palloc_get_entry_block f nr create s =
     (let s1 = log_call (Get_entry_block (i_id f) nr create) s in
      case entry_block f nr create of
        Inl e \<Rightarrow> (Inl e, s1)
      | Inr b \<Rightarrow> (Inr b, s1\<lparr>b_count := (b_count s1)(b := b_count s1 b + 1)\<rparr>))"

text \<open>
  Modelled from the spec: the allocator's prepare/commit/abort protocol (alloc.c) is
  not part of the sources at hand. Preparing an allocation reserves a slot without
  making it visible, committing makes the slot allocated, aborting gives the
  reservation up. Preparing a free validates that the entry is allocated (and answers
  \<open>ENOENT\<close>, "have not been allocated", otherwise); committing the free makes the
  slot available again.
\<close>

definition nilfs_palloc_prepare_alloc_entry :: "ifile \<Rightarrow> kstate \<Rightarrow> (errno + nat) \<times> kstate" where
  "nilfs_palloc_prepare_alloc_entry f s =
     (let s1 = log_call (Prepare_alloc_entry (i_id f)) s in
      case palloc_find_slot f (pa_allocated s (i_id f) \<union> pa_reserved s (i_id f)) of
        Inl e \<Rightarrow> (Inl e, s1)
      | Inr nr \<Rightarrow>
          (Inr nr, s1\<lparr>pa_reserved := (pa_reserved s1)(i_id f := insert nr (pa_reserved s1 (i_id f)))\<rparr>))"

definition nilfs_palloc_abort_alloc_entry :: "ifile \<Rightarrow> nat \<Rightarrow> kstate \<Rightarrow> kstate" where
  "nilfs_palloc_abort_alloc_entry f nr s =
     log_call (Abort_alloc_entry (i_id f) nr)
       (s\<lparr>pa_reserved := (pa_reserved s)(i_id f := pa_reserved s (i_id f) - {nr})\<rparr>)"

definition nilfs_palloc_commit_alloc_entry :: "ifile \<Rightarrow> nat \<Rightarrow> kstate \<Rightarrow> kstate" where
  "nilfs_palloc_commit_alloc_entry f nr s =
     log_call (Commit_alloc_entry (i_id f) nr)
       (s\<lparr>pa_reserved := (pa_reserved s)(i_id f := pa_reserved s (i_id f) - {nr}),
          pa_allocated := (pa_allocated s)(i_id f := insert nr (pa_allocated s (i_id f)))\<rparr>)"

definition nilfs_palloc_prepare_free_entry :: "ifile \<Rightarrow> nat \<Rightarrow> kstate \<Rightarrow> errno option \<times> kstate" where
  "nilfs_palloc_prepare_free_entry f nr s =
     (let s1 = log_call (Prepare_free_entry (i_id f) nr) s in
      if nr \<in> pa_allocated s (i_id f) then (None, s1) else (Some ENOENT, s1))"

definition nilfs_palloc_abort_free_entry :: "ifile \<Rightarrow> nat \<Rightarrow> kstate \<Rightarrow> kstate" where
  "nilfs_palloc_abort_free_entry f nr s = log_call (Abort_free_entry (i_id f) nr) s"

definition nilfs_palloc_commit_free_entry :: "ifile \<Rightarrow> nat \<Rightarrow> kstate \<Rightarrow> kstate" where
  "nilfs_palloc_commit_free_entry f nr s =
     log_call (Commit_free_entry (i_id f) nr)
       (s\<lparr>pa_allocated := (pa_allocated s)(i_id f := pa_allocated s (i_id f) - {nr})\<rparr>)"

subsection \<open>Creating, deleting and looking up an inode\<close>

text \<open>
  \<open>nilfs_ifile_create_inode\<close>. The request's \<open>pr_entry_bh\<close> starts as NULL and is
  set only by a successful fetch, so the \<open>brelse\<close> of the error path is
  \<open>brelse(NULL)\<close>. The result is the error, or \<open>*out_ino\<close> and \<open>*out_bh\<close>.
\<close>

definition nilfs_ifile_create_inode :: "ifile \<Rightarrow> kstate \<Rightarrow> (errno + nat \<times> bh) \<times> kstate" where
  "nilfs_ifile_create_inode f s =
     (case nilfs_palloc_prepare_alloc_entry f s of
        (Inl e, s1) \<Rightarrow> (Inl e, brelse None s1)
      | (Inr nr, s1) \<Rightarrow>
          (case nilfs_palloc_get_entry_block f nr True s1 of
             (Inl e, s2) \<Rightarrow> (Inl e, brelse None (nilfs_palloc_abort_alloc_entry f nr s2))
           | (Inr b, s2) \<Rightarrow>
               (Inr (nr, b),
                nilfs_mdt_mark_dirty f
                  (mark_buffer_dirty b (nilfs_palloc_commit_alloc_entry f nr s2)))))"

text \<open>
  \<open>nilfs_ifile_delete_inode\<close>. The entry is found in its block by
  \<open>nilfs_palloc_block_get_entry\<close> and its \<open>i_flags\<close> is set to 0 in place.
\<close>

definition store_i_flags :: "bh \<Rightarrow> nat \<Rightarrow> kstate \<Rightarrow> kstate" where
  "store_i_flags b p s =
     log_call (Store_i_flags b p)
       (s\<lparr>b_data := (b_data s)(b := (b_data s b)(p := (b_data s b p)\<lparr>i_flags := 0\<rparr>))\<rparr>)"

definition nilfs_ifile_delete_inode :: "ifile \<Rightarrow> nat \<Rightarrow> kstate \<Rightarrow> errno option \<times> kstate" where
  "nilfs_ifile_delete_inode f ino_nr s =
     (case nilfs_palloc_prepare_free_entry f ino_nr s of
        (Some e, s1) \<Rightarrow> (Some e, brelse None s1)
      | (None, s1) \<Rightarrow>
          (case nilfs_palloc_get_entry_block f ino_nr False s1 of
             (Inl e, s2) \<Rightarrow> (Some e, brelse None (nilfs_palloc_abort_free_entry f ino_nr s2))
           | (Inr b, s2) \<Rightarrow>
               (None,
                nilfs_palloc_commit_free_entry f ino_nr
                  (brelse (Some b)
                    (mark_buffer_dirty b
                      (store_i_flags b (palloc_entry_index f ino_nr) s2))))))"

text \<open>\<open>nilfs_ifile_get_inode_block\<close>.\<close>

definition nilfs_ifile_get_inode_block :: "ifile \<Rightarrow> nat \<Rightarrow> kstate \<Rightarrow> (errno + bh) \<times> kstate" where
  "nilfs_ifile_get_inode_block f ino_nr s =
     (if \<not> valid_inode f ino_nr then (Inl EINVAL, log_call Nilfs_error s)
      else
        (case nilfs_palloc_get_entry_block f ino_nr False s of
           (Inl e, s1) \<Rightarrow> (Inl e, log_call Nilfs_warning s1)
         | (Inr b, s1) \<Rightarrow> (Inr b, s1)))"

subsection \<open>Comparing two inode files\<close>

text \<open>
  The three loops of \<open>nilfs_ifile_compare_block\<close> over the inodes \<open>ino..end\<close> of
  one block. \<open>p\<close> is the position of \<open>raw_inode\<close> in the block (\<open>p1\<close> and \<open>p2\<close>
  those of \<open>raw_inode1\<close> and \<open>raw_inode2\<close>); it moves on by one entry (\<open>isz\<close>
  bytes) with every inode. The records written to \<open>changes[0..n)\<close>
  are the list \<open>chs\<close> and \<open>n\<close> is its length: \<open>changes[n] = r; n++\<close> appends.

  The block exists in \<open>ifile2\<close> only:
\<close>

function compare_block_loop2 ::
  "bh \<Rightarrow> nat \<Rightarrow> nat \<Rightarrow> nat \<Rightarrow> nat \<Rightarrow> nilfs_ifile_change list \<Rightarrow> kstate
     \<Rightarrow> nilfs_ifile_change list \<times> kstate" where
  "compare_block_loop2 ibh2 maxchanges end_ino ino_nr p chs s =
     (if ino_nr \<le> end_ino then
        (if i_links_count (b_data s ibh2 p) \<noteq> 0 then
           (let chs' = chs @ [\<lparr>ino = ino_nr, bh1 = None, bh2 = Some ibh2\<rparr>];
                s' = get_bh ibh2 s
            in if length chs' = maxchanges then (chs', s')
               else compare_block_loop2 ibh2 maxchanges end_ino (ino_nr + 1) (p + 1) chs' s')
         else compare_block_loop2 ibh2 maxchanges end_ino (ino_nr + 1) (p + 1) chs s)
      else (chs, s))"
  by pat_completeness auto
termination
  by (relation "measure (\<lambda>(ibh2, maxchanges, end_ino, ino_nr, p, chs, s). end_ino + 1 - ino_nr)") auto

declare compare_block_loop2.simps [simp del]

text \<open>The block exists in \<open>ifile1\<close> only:\<close>

function compare_block_loop1 ::
  "bh \<Rightarrow> nat \<Rightarrow> nat \<Rightarrow> nat \<Rightarrow> nat \<Rightarrow> nilfs_ifile_change list \<Rightarrow> kstate
     \<Rightarrow> nilfs_ifile_change list \<times> kstate" where
  "compare_block_loop1 ibh1 maxchanges end_ino ino_nr p chs s =
     (if ino_nr \<le> end_ino then
        (if i_links_count (b_data s ibh1 p) \<noteq> 0 then
           (let s' = get_bh ibh1 s;
                chs' = chs @ [\<lparr>ino = ino_nr, bh1 = Some ibh1, bh2 = None\<rparr>]
            in if length chs' = maxchanges then (chs', s')
               else compare_block_loop1 ibh1 maxchanges end_ino (ino_nr + 1) (p + 1) chs' s')
         else compare_block_loop1 ibh1 maxchanges end_ino (ino_nr + 1) (p + 1) chs s)
      else (chs, s))"
  by pat_completeness auto
termination
  by (relation "measure (\<lambda>(ibh1, maxchanges, end_ino, ino_nr, p, chs, s). end_ino + 1 - ino_nr)") auto

declare compare_block_loop1.simps [simp del]

text \<open>
  The block exists in both: an inode whose change time differs gives a record, with
  a reference to the block of each side on which its link count is not zero.
\<close>

definition changed_inode :: "bh \<Rightarrow> bh \<Rightarrow> nat \<Rightarrow> nilfs_inode \<Rightarrow> nilfs_inode \<Rightarrow> kstate
     \<Rightarrow> nilfs_ifile_change \<times> kstate" where
  "changed_inode ibh1 ibh2 ino_nr raw_inode1 raw_inode2 s =
     (let (c1, s1) = (if i_links_count raw_inode1 \<noteq> 0 then (Some ibh1, get_bh ibh1 s)
                      else (None, s));
          (c2, s2) = (if i_links_count raw_inode2 \<noteq> 0 then (Some ibh2, get_bh ibh2 s1)
                      else (None, s1))
      in (\<lparr>ino = ino_nr, bh1 = c1, bh2 = c2\<rparr>, s2))"

function compare_block_loop12 ::
  "bh \<Rightarrow> bh \<Rightarrow> nat \<Rightarrow> nat \<Rightarrow> nat \<Rightarrow> nat \<Rightarrow> nat \<Rightarrow> nilfs_ifile_change list \<Rightarrow> kstate
     \<Rightarrow> nilfs_ifile_change list \<times> kstate" where
  "compare_block_loop12 ibh1 ibh2 maxchanges end_ino ino_nr p1 p2 chs s =
     (if ino_nr \<le> end_ino then
        (if i_ctime_nsec (b_data s ibh1 p1) \<noteq> i_ctime_nsec (b_data s ibh2 p2) \<or>
            i_ctime (b_data s ibh1 p1) \<noteq> i_ctime (b_data s ibh2 p2) then
           (let (c, s') = changed_inode ibh1 ibh2 ino_nr (b_data s ibh1 p1) (b_data s ibh2 p2) s;
                chs' = chs @ [c]
            in if length chs' = maxchanges then (chs', s')
               else compare_block_loop12 ibh1 ibh2 maxchanges end_ino (ino_nr + 1)
                      (p1 + 1) (p2 + 1) chs' s')
         else compare_block_loop12 ibh1 ibh2 maxchanges end_ino (ino_nr + 1)
                (p1 + 1) (p2 + 1) chs s)
      else (chs, s))"
  by pat_completeness auto
termination
  by (relation "measure (\<lambda>(ibh1, ibh2, maxchanges, end_ino, ino_nr, p1, p2, chs, s).
                  end_ino + 1 - ino_nr)") auto

declare compare_block_loop12.simps [simp del]

text \<open>
  \<open>nilfs_ifile_compare_block\<close>, in the three parts of its body. First, the fetch
  of one side's block: only if the block pointer of that side is valid; a failure
  with \<open>ENOENT\<close> raises the warning \<open>WARN_ON\<close>, and any failure leaves the buffer
  head pointer NULL.
\<close>

definition compare_block_fetch ::
  "ifile \<Rightarrow> nat \<Rightarrow> nat \<Rightarrow> kstate \<Rightarrow> (errno + bh option) \<times> kstate" where
  "compare_block_fetch f nr ptr s =
     (if ptr \<noteq> NILFS_BMAP_INVALID_PTR
      then (case nilfs_palloc_get_entry_block f nr False s of
              (Inl e, s1) \<Rightarrow> (Inl e, if e = ENOENT then log_call Warn_on s1 else s1)
            | (Inr b, s1) \<Rightarrow> (Inr (Some b), s1))
      else (Inr None, s))"

text \<open>
  Second, the choice of the loop by the two buffer heads: none at all
  (\<open>goto out_bh\<close>), \<open>ibh2\<close> only, \<open>ibh1\<close> only, or both. The position of the first
  inode in the block is what \<open>nilfs_palloc_block_get_entry\<close> finds.
\<close>

definition compare_block_scan ::
  "ifile \<Rightarrow> ifile \<Rightarrow> bh option \<Rightarrow> bh option \<Rightarrow> nat \<Rightarrow> nat \<Rightarrow> nat \<Rightarrow> kstate
     \<Rightarrow> nilfs_ifile_change list \<times> kstate" where
  "compare_block_scan ifile1 ifile2 ibh1 ibh2 maxchanges end_ino ino_nr s =
     (case ibh1 of
        None \<Rightarrow>
          (case ibh2 of
             None \<Rightarrow> ([], s)
           | Some b2 \<Rightarrow>
               compare_block_loop2 b2 maxchanges end_ino ino_nr
                 (palloc_entry_index ifile2 ino_nr) [] s)
      | Some b1 \<Rightarrow>
          (case ibh2 of
             None \<Rightarrow>
               compare_block_loop1 b1 maxchanges end_ino ino_nr
                 (palloc_entry_index ifile1 ino_nr) [] s
           | Some b2 \<Rightarrow>
               compare_block_loop12 b1 b2 maxchanges end_ino ino_nr
                 (palloc_entry_index ifile1 ino_nr) (palloc_entry_index ifile2 ino_nr) [] s))"

text \<open>
  The whole: the value \<open>n\<close> it returns (a count, or a negative error), the records
  it wrote to \<open>changes\<close>, and the state. After a failed second fetch,
  \<open>brelse(ibh1)\<close> releases what the first fetch got, if there was one.
\<close>

definition nilfs_ifile_compare_block ::
  "ifile \<Rightarrow> ifile \<Rightarrow> nat \<Rightarrow> nilfs_bmap_diff \<Rightarrow> nat \<Rightarrow> kstate
     \<Rightarrow> int \<times> nilfs_ifile_change list \<times> kstate" where
  "nilfs_ifile_compare_block ifile1 ifile2 start diff maxchanges s =
     (case palloc_block_type ifile1 (key diff) of
        None \<Rightarrow> (0, [], s)
      | Some nr \<Rightarrow>
          (let ino_nr = max nr start;
               end_ino = nr + mi_entries_per_block ifile1 - 1
           in if ino_nr > end_ino then (0, [], s)
              else
                (case compare_block_fetch ifile1 nr (ptr1 diff) s of
                   (Inl e, s1) \<Rightarrow> (err e, [], s1)
                 | (Inr ibh1, s1) \<Rightarrow>
                     (case compare_block_fetch ifile2 nr (ptr2 diff) s1 of
                        (Inl e, s2) \<Rightarrow> (err e, [], brelse ibh1 s2)
                      | (Inr ibh2, s2) \<Rightarrow>
                          (case compare_block_scan ifile1 ifile2 ibh1 ibh2 maxchanges
                                  end_ino ino_nr s2 of
                             (chs, s3) \<Rightarrow>
                               (int (length chs), chs, brelse ibh2 (brelse ibh1 s3)))))))"

text \<open>
  Modelled from the spec: \<open>nilfs_bmap_compare\<close> (bmap.c) is not part of the sources
  at hand. Given the two block mappings, a starting offset and the capacity of the
  batch, it enumerates in ascending order the offsets from the start on whose mapping
  differs, each with the pointer of either side, up to the capacity; or it fails.
\<close>

definition bmap_diffs :: "ifile \<Rightarrow> ifile \<Rightarrow> nat \<Rightarrow> nilfs_bmap_diff list" where
  "bmap_diffs ifile1 ifile2 blkoff =
     map (\<lambda>k. \<lparr>key = k, ptr1 = i_bmap ifile1 k, ptr2 = i_bmap ifile2 k\<rparr>)
       (filter (\<lambda>k. i_bmap ifile1 k \<noteq> i_bmap ifile2 k)
          [blkoff ..< max (i_bmap_end ifile1) (i_bmap_end ifile2)])"

definition nilfs_bmap_compare ::
  "ifile \<Rightarrow> ifile \<Rightarrow> nat \<Rightarrow> nat \<Rightarrow> kstate \<Rightarrow> (errno + nilfs_bmap_diff list) \<times> kstate" where
  "nilfs_bmap_compare ifile1 ifile2 blkoff maxdiffs s =
     (let s1 = log_call (Bmap_compare blkoff maxdiffs) s in
      case bmap_fault ifile1 blkoff of
        Some e \<Rightarrow> (Inl e, s1)
      | None \<Rightarrow>
          (case bmap_fault ifile2 blkoff of
             Some e \<Rightarrow> (Inl e, s1)
           | None \<Rightarrow> (Inr (take maxdiffs (bmap_diffs ifile1 ifile2 blkoff)), s1)))"

text \<open>
  \<open>size_t\<close> is 64 bits wide; \<open>size_t_of\<close> is the conversion of an \<open>ssize_t\<close>
  to it. The code compares \<open>nc == maxchanges\<close> and computes \<open>maxchanges - nc\<close> in
  \<open>size_t\<close>.
\<close>

definition size_t_of :: "int \<Rightarrow> nat" where
  "size_t_of i = nat (i mod 2 ^ 64)"

text \<open>
  The \<open>for\<close> loop of \<open>nilfs_ifile_compare\<close> over the differing blocks of one
  batch. It is left by \<open>goto failed\<close>, by \<open>goto out\<close>, or at its end. The records
  are written from \<open>changes[nc]\<close> on, that is, appended.
\<close>

datatype loop_exit = Goto_failed | Goto_out | Loop_end

fun compare_for ::
  "ifile \<Rightarrow> ifile \<Rightarrow> nat \<Rightarrow> nat \<Rightarrow> nilfs_bmap_diff list \<Rightarrow> int \<Rightarrow> nilfs_ifile_change list
     \<Rightarrow> kstate \<Rightarrow> loop_exit \<times> int \<times> nilfs_ifile_change list \<times> kstate" where
  "compare_for ifile1 ifile2 start maxchanges [] nc changes s = (Loop_end, nc, changes, s)"
| "compare_for ifile1 ifile2 start maxchanges (d # diffs) nc changes s =
     (case nilfs_ifile_compare_block ifile1 ifile2 start d
             (size_t_of (int maxchanges - nc)) s of
        (n, chs, s1) \<Rightarrow>
          if n < 0 then (Goto_failed, n, changes @ chs, s1)
          else if size_t_of (nc + n) = maxchanges then (Goto_out, nc + n, changes @ chs, s1)
          else compare_for ifile1 ifile2 start maxchanges diffs (nc + n) (changes @ chs) s1)"

text \<open>
  The loop after the label \<open>failed\<close>: \<open>for (i = 0; i < nc; i++)\<close> releases both
  buffer heads of \<open>changes[i]\<close>. \<open>i\<close> and \<open>nc\<close> are signed, and \<open>nc\<close> is what
  the assignment \<open>nc = n\<close> before \<open>goto failed\<close> made it.
\<close>

function compare_failed :: "int \<Rightarrow> int \<Rightarrow> nilfs_ifile_change list \<Rightarrow> kstate \<Rightarrow> kstate" where
  "compare_failed i nc changes s =
     (if i < nc
      then compare_failed (i + 1) nc changes
             (brelse (bh2 (changes ! nat i)) (brelse (bh1 (changes ! nat i)) s))
      else s)"
  by pat_completeness auto
termination
  by (relation "measure (\<lambda>(i, nc, changes, s). nat (nc - i))") auto

declare compare_failed.simps [simp del]

text \<open>
  The \<open>do ... while (nd == maxdiffs)\<close> loop of \<open>nilfs_ifile_compare\<close>, with what
  follows it: the value returned, the records in \<open>changes\<close>, and the state.
\<close>

function compare_do ::
  "nat \<Rightarrow> ifile \<Rightarrow> ifile \<Rightarrow> nat \<Rightarrow> nat \<Rightarrow> nat \<Rightarrow> int \<Rightarrow> nilfs_ifile_change list \<Rightarrow> kstate
     \<Rightarrow> int \<times> nilfs_ifile_change list \<times> kstate" where
  "compare_do maxdiffs ifile1 ifile2 start maxchanges blkoff nc changes s =
     (case nilfs_bmap_compare ifile1 ifile2 blkoff maxdiffs s of
        (Inl e, s1) \<Rightarrow> (err e, changes, s1)
      | (Inr diffs, s1) \<Rightarrow>
          if diffs = [] then (nc, changes, s1)
          else
            (case compare_for ifile1 ifile2 start maxchanges diffs nc changes s1 of
               (Goto_failed, nc', changes', s2) \<Rightarrow>
                 (nc', changes', compare_failed 0 nc' changes' s2)
             | (Goto_out, nc', changes', s2) \<Rightarrow> (nc', changes', s2)
             | (Loop_end, nc', changes', s2) \<Rightarrow>
                 if length diffs = maxdiffs
                 then compare_do maxdiffs ifile1 ifile2 start maxchanges
                        (key (last diffs) + 1) nc' changes' s2
                 else (nc', changes', s2)))"
  by pat_completeness auto

termination compare_do
proof (relation "measure (\<lambda>(maxdiffs, ifile1, ifile2, start, maxchanges, blkoff, nc, changes, s).
                   max (i_bmap_end ifile1) (i_bmap_end ifile2) - blkoff)", goal_cases)
  case 1
  show ?case by simp
next
  case (2 maxdiffs ifile1 ifile2 start maxchanges blkoff nc changes s x s1 diffs)
  from 2(1,2) have "diffs = take maxdiffs (bmap_diffs ifile1 ifile2 blkoff)"
    by (auto simp: nilfs_bmap_compare_def Let_def split: option.splits)
  with 2(3) have "last diffs \<in> set (bmap_diffs ifile1 ifile2 blkoff)"
    by (metis in_set_takeD last_in_set)
  then have "blkoff \<le> key (last diffs) \<and>
             key (last diffs) < max (i_bmap_end ifile1) (i_bmap_end ifile2)"
    by (auto simp: bmap_diffs_def)
  then show ?case by auto
qed

declare compare_do.simps [simp del]

text \<open>
  \<open>nilfs_ifile_compare\<close>. The number of block differences that fit into the page
  it allocates, \<open>maxdiffs = PAGE_SIZE / sizeof(*diffs)\<close>, depends on constants that
  are not part of the sources at hand and is a parameter.
\<close>

definition nilfs_ifile_compare ::
  "nat \<Rightarrow> ifile \<Rightarrow> ifile \<Rightarrow> nat \<Rightarrow> nat \<Rightarrow> kstate \<Rightarrow> int \<times> nilfs_ifile_change list \<times> kstate" where
  "nilfs_ifile_compare maxdiffs ifile1 ifile2 start maxchanges s =
     (if \<not> page_avail s then (err ENOMEM, [], s)
      else compare_do maxdiffs ifile1 ifile2 start maxchanges
             (palloc_entry_blkoff ifile1 start) 0 [] s)"

text \<open>
  What \<open>nilfs_ifile_compare\<close> does after the \<open>for\<close> loop over the batch
  \<open>batch\<close> has been left with \<open>r\<close>: the release loop after \<open>goto failed\<close>, the
  return after \<open>goto out\<close>, and at the end of the loop the next round of the
  \<open>do\<close> loop if the batch was full. This is the inner \<open>case\<close> of \<open>compare_do\<close>.
\<close>

definition compare_after_for ::
  "nat \<Rightarrow> ifile \<Rightarrow> ifile \<Rightarrow> nat \<Rightarrow> nat \<Rightarrow> nilfs_bmap_diff list
     \<Rightarrow> loop_exit \<times> int \<times> nilfs_ifile_change list \<times> kstate
     \<Rightarrow> int \<times> nilfs_ifile_change list \<times> kstate" where
  "compare_after_for maxdiffs ifile1 ifile2 start maxchanges batch r =
     (case r of
        (Goto_failed, nc', changes', s2) \<Rightarrow> (nc', changes', compare_failed 0 nc' changes' s2)
      | (Goto_out, nc', changes', s2) \<Rightarrow> (nc', changes', s2)
      | (Loop_end, nc', changes', s2) \<Rightarrow>
          if length batch = maxdiffs
          then compare_do maxdiffs ifile1 ifile2 start maxchanges
                 (key (last batch) + 1) nc' changes' s2
          else (nc', changes', s2))"

text \<open>
  The heads of the \<open>for\<close> loop that a run of \<open>nilfs_ifile_compare\<close> from the
  state \<open>s0\<close> comes to: \<open>compare_reaches ... s0 batch diffs nc changes s\<close> says that
  the run stands before the blocks \<open>diffs\<close> of the batch \<open>batch\<close>, with the count
  \<open>nc\<close>, the records \<open>changes\<close> and the state \<open>s\<close>. It comes to the first block
  of the first batch if the page was had and the differ reported a block; from a block
  to the next one if the block did not fail and did not fill the buffer; and from the
  end of a full batch to the first block of the next batch.
\<close>

inductive compare_reaches ::
  "nat \<Rightarrow> ifile \<Rightarrow> ifile \<Rightarrow> nat \<Rightarrow> nat \<Rightarrow> kstate
     \<Rightarrow> nilfs_bmap_diff list \<Rightarrow> nilfs_bmap_diff list \<Rightarrow> int \<Rightarrow> nilfs_ifile_change list
     \<Rightarrow> kstate \<Rightarrow> bool"
  for maxdiffs ifile1 ifile2 start maxchanges s0 where
    first_batch:
      "page_avail s0 \<Longrightarrow>
       nilfs_bmap_compare ifile1 ifile2 (palloc_entry_blkoff ifile1 start) maxdiffs s0 =
         (Inr diffs, s1) \<Longrightarrow>
       diffs \<noteq> [] \<Longrightarrow>
       compare_reaches maxdiffs ifile1 ifile2 start maxchanges s0 diffs diffs 0 [] s1"
  | next_block:
      "compare_reaches maxdiffs ifile1 ifile2 start maxchanges s0 batch (d # diffs) nc changes s \<Longrightarrow>
       nilfs_ifile_compare_block ifile1 ifile2 start d (size_t_of (int maxchanges - nc)) s =
         (n, chs, s1) \<Longrightarrow>
       0 \<le> n \<Longrightarrow>
       size_t_of (nc + n) \<noteq> maxchanges \<Longrightarrow>
       compare_reaches maxdiffs ifile1 ifile2 start maxchanges s0 batch diffs (nc + n)
         (changes @ chs) s1"
  | next_batch:
      "compare_reaches maxdiffs ifile1 ifile2 start maxchanges s0 batch [] nc changes s \<Longrightarrow>
       length batch = maxdiffs \<Longrightarrow>
       nilfs_bmap_compare ifile1 ifile2 (key (last batch) + 1) maxdiffs s = (Inr diffs, s1) \<Longrightarrow>
       diffs \<noteq> [] \<Longrightarrow>
       compare_reaches maxdiffs ifile1 ifile2 start maxchanges s0 diffs diffs nc changes s1"

subsection \<open>What the ordering of the result rests on\<close>

text \<open>
  The allocator's layout is ascending: a block holds at least one entry, and of two
  entry blocks the one at the higher offset starts after the last entry of the other.
\<close>

definition palloc_layout_ascending :: "ifile \<Rightarrow> bool" where
  "palloc_layout_ascending f \<longleftrightarrow>
     0 < mi_entries_per_block f \<and>
     (\<forall>k k' nr nr'. k < k' \<and> palloc_block_type f k = Some nr \<and> palloc_block_type f k' = Some nr'
        \<longrightarrow> nr + mi_entries_per_block f \<le> nr')"

text \<open>
  The records of one block: inode numbers strictly ascending, between \<open>lo\<close> and \<open>hi\<close>.
\<close>

definition block_out :: "nat \<Rightarrow> nat \<Rightarrow> nilfs_ifile_change list \<Rightarrow> bool" where
  "block_out lo hi new \<longleftrightarrow>
     sorted_wrt (<) (map ino new) \<and> (\<forall>c\<in>set new. lo \<le> ino c \<and> ino c \<le> hi)"

text \<open>
  The records written up to some point of the scan: strictly ascending, from \<open>start\<close>
  on, and before the first entry of every entry block from offset \<open>K\<close> on.
\<close>

definition scan_inv :: "ifile \<Rightarrow> nat \<Rightarrow> nat \<Rightarrow> nilfs_ifile_change list \<Rightarrow> bool" where
  "scan_inv f start K chs \<longleftrightarrow>
     sorted_wrt (<) (map ino chs) \<and> (\<forall>c\<in>set chs. start \<le> ino c) \<and>
     (\<forall>c\<in>set chs. \<forall>k nr. K \<le> k \<and> palloc_block_type f k = Some nr \<longrightarrow> ino c < nr)"

subsection \<open>Small inode files to compute with\<close>

text \<open>
  Two inodes per block and one entry block per group: block 0 holds the group
  descriptors, and each group is a bitmap block followed by its entry block. So block
  1 is a bitmap and block 2 holds the inodes 0 and 1, block 3 is a bitmap and block 4
  holds the inodes 2 and 3, and so on. \<open>bm\<close> is the block mapping, which ends before
  offset 7, and \<open>blk\<close> what the block store answers.
\<close>

definition small_ifile :: "nat \<Rightarrow> (nat \<Rightarrow> nat) \<Rightarrow> (nat \<Rightarrow> bool \<Rightarrow> errno + bh) \<Rightarrow> ifile" where
  "small_ifile n bm blk =
     \<lparr>i_id = n, mi_entries_per_block = 2,
      palloc_block_type = (\<lambda>k. if k = 0 \<or> odd k then None else Some (k - 2)),
      palloc_entry_blkoff = (\<lambda>e. 2 * (e div 2) + 2),
      palloc_entry_index = (\<lambda>e. e mod 2),
      palloc_find_slot = (\<lambda>used. if 4 \<in> used then Inl ENOSPC else Inr 4),
      entry_block = blk,
      valid_inode = (\<lambda>e. e < 6),
      i_bmap = bm, i_bmap_end = 7,
      bmap_fault = (\<lambda>k. None)\<rparr>"

definition raw_inode :: "nat \<Rightarrow> nat \<Rightarrow> nilfs_inode" where
  "raw_inode links ctime =
     \<lparr>i_links_count = of_nat links, i_flags = 1, i_ctime = of_nat ctime, i_ctime_nsec = 0\<rparr>"

text \<open>
  A state with no reference held and nothing dirty. Every block of buffer head 7, 8 or
  9 holds live inodes with change time 5; every other block holds inodes with link
  count 0, of change time 0 in buffer head 5 and change time 9 elsewhere. The inodes 0
  and 1 are allocated.
\<close>

definition small_state :: kstate where
  "small_state =
     \<lparr>b_count = (\<lambda>b. 0),
      b_data = (\<lambda>b p. if b = 7 \<or> b = 8 \<or> b = 9 then raw_inode 1 5
                       else if b = 5 then raw_inode 0 0 else raw_inode 0 9),
      b_dirty = (\<lambda>b. False),
      mdt_dirty = (\<lambda>n. False),
      pa_allocated = (\<lambda>n. {0, 1}),
      pa_reserved = (\<lambda>n. {}),
      page_avail = True,
      calls = []\<rparr>"

text \<open>An inode file with no block at all.\<close>

definition empty_ifile :: ifile where
  "empty_ifile = small_ifile 1 (\<lambda>k. 0) (\<lambda>nr create. Inl ENOENT)"

text \<open>One with the first group only: the inodes 0 and 1 are in buffer head 7.\<close>

definition one_block_ifile :: ifile where
  "one_block_ifile =
     small_ifile 2 (\<lambda>k. if k = 1 then 11 else if k = 2 then 20 else 0)
       (\<lambda>nr create. if nr < 2 then Inr 7 else Inl ENOENT)"

text \<open>
  One with two groups: the inodes 0..3 are in the buffer heads 7 and 8; a block for
  the inodes 4 and 5 can be created, in buffer head 9.
\<close>

definition two_block_ifile :: ifile where
  "two_block_ifile =
     small_ifile 2
       (\<lambda>k. if k = 1 then 11 else if k = 2 then 20 else if k = 3 then 13
             else if k = 4 then 30 else 0)
       (\<lambda>nr create. if nr < 2 then Inr 7 else if nr < 4 then Inr 8
                     else if nr < 6 \<and> create then Inr 9 else Inl ENOENT)"

text \<open>The same, but the second entry block cannot be read and no block can be created.\<close>

definition broken_ifile :: ifile where
  "broken_ifile =
     small_ifile 2
       (\<lambda>k. if k = 1 then 11 else if k = 2 then 20 else if k = 3 then 13
             else if k = 4 then 30 else 0)
       (\<lambda>nr create. if nr < 2 then Inr 7 else Inl EIO)"

text \<open>
  An older version of the inode file with two groups, in which only the first group
  exists, with the same blocks.
\<close>

definition first_group_ifile :: ifile where
  "first_group_ifile =
     small_ifile 1 (\<lambda>k. if k = 1 then 11 else if k = 2 then 20 else 0)
       (\<lambda>nr create. if nr < 2 then Inr 7 else Inl ENOENT)"

text \<open>
  Two versions of the block of the inodes 0 and 1, in the buffer heads 5 and 6: the
  link count is 0 in both, the change time is 0 in the old and 9 in the new one.
\<close>

definition old_ifile :: ifile where
  "old_ifile =
     small_ifile 1 (\<lambda>k. if k = 1 then 11 else if k = 2 then 10 else 0)
       (\<lambda>nr create. if nr < 2 then Inr 5 else Inl ENOENT)"

definition new_ifile :: ifile where
  "new_ifile =
     small_ifile 2 (\<lambda>k. if k = 1 then 11 else if k = 2 then 21 else 0)
       (\<lambda>nr create. if nr < 2 then Inr 6 else Inl ENOENT)"

section \<open>Properties\<close>

lemmas small_defs = small_ifile_def small_state_def raw_inode_def

lemmas op_defs = log_call_def get_bh_def brelse_def mark_buffer_dirty_def nilfs_mdt_mark_dirty_def
  nilfs_palloc_get_entry_block_def nilfs_palloc_prepare_alloc_entry_def
  nilfs_palloc_abort_alloc_entry_def nilfs_palloc_commit_alloc_entry_def
  nilfs_palloc_prepare_free_entry_def nilfs_palloc_abort_free_entry_def
  nilfs_palloc_commit_free_entry_def store_i_flags_def

subsection \<open>Creating an inode\<close>

text \<open>
  C7. In \<open>nilfs_ifile_create_inode\<close>, when the allocation was prepared for the slot
  \<open>nr\<close> and the fetch of its block fails, the reservation is aborted and the failure
  is returned: the calls are prepare, fetch (creating), abort and
  \<open>brelse(NULL)\<close>, no slot becomes allocated and nothing is marked dirty. When the
  fetch succeeds the reservation is committed, the block and the inode file are marked
  dirty, and the inode number comes back with the block, whose reference is kept. When
  the preparation itself fails nothing is fetched or committed.
\<close>

theorem create_inode_protocol:
  assumes "nilfs_ifile_create_inode f s = (r, s')"
  shows "(\<forall>nr e. palloc_find_slot f (pa_allocated s (i_id f) \<union> pa_reserved s (i_id f)) = Inr nr \<and>
            entry_block f nr True = Inl e \<longrightarrow>
            r = Inl e \<and>
            calls s' = calls s @ [Prepare_alloc_entry (i_id f), Get_entry_block (i_id f) nr True,
                                  Abort_alloc_entry (i_id f) nr, Brelse None] \<and>
            pa_allocated s' = pa_allocated s \<and> nr \<notin> pa_reserved s' (i_id f) \<and>
            b_dirty s' = b_dirty s \<and> mdt_dirty s' = mdt_dirty s \<and> b_count s' = b_count s) \<and>
         (\<forall>nr b. palloc_find_slot f (pa_allocated s (i_id f) \<union> pa_reserved s (i_id f)) = Inr nr \<and>
            entry_block f nr True = Inr b \<longrightarrow>
            r = Inr (nr, b) \<and>
            calls s' = calls s @ [Prepare_alloc_entry (i_id f), Get_entry_block (i_id f) nr True,
                                  Commit_alloc_entry (i_id f) nr, Mark_buffer_dirty b,
                                  Mdt_mark_dirty (i_id f)] \<and>
            pa_allocated s' (i_id f) = insert nr (pa_allocated s (i_id f)) \<and>
            b_dirty s' b \<and> mdt_dirty s' (i_id f) \<and> b_count s' b = b_count s b + 1) \<and>
         (\<forall>e. palloc_find_slot f (pa_allocated s (i_id f) \<union> pa_reserved s (i_id f)) = Inl e \<longrightarrow>
            r = Inl e \<and> calls s' = calls s @ [Prepare_alloc_entry (i_id f), Brelse None] \<and>
            pa_allocated s' = pa_allocated s \<and> pa_reserved s' = pa_reserved s \<and>
            b_dirty s' = b_dirty s \<and> mdt_dirty s' = mdt_dirty s \<and> b_count s' = b_count s)"
  using assms
  by (auto simp: nilfs_ifile_create_inode_def op_defs Let_def split: sum.splits)

theorem create_inode_protocol_witness:
  "palloc_find_slot broken_ifile
     (pa_allocated small_state (i_id broken_ifile) \<union> pa_reserved small_state (i_id broken_ifile))
     = Inr 4 \<and>
   entry_block broken_ifile 4 True = Inl EIO \<and>
   fst (nilfs_ifile_create_inode broken_ifile small_state) = Inl EIO \<and>
   calls (snd (nilfs_ifile_create_inode broken_ifile small_state)) =
     [Prepare_alloc_entry 2, Get_entry_block 2 4 True, Abort_alloc_entry 2 4, Brelse None] \<and>
   pa_allocated (snd (nilfs_ifile_create_inode broken_ifile small_state)) =
     pa_allocated small_state \<and>
   palloc_find_slot two_block_ifile
     (pa_allocated small_state (i_id two_block_ifile) \<union>
      pa_reserved small_state (i_id two_block_ifile)) = Inr 4 \<and>
   entry_block two_block_ifile 4 True = Inr 9 \<and>
   fst (nilfs_ifile_create_inode two_block_ifile small_state) = Inr (4, 9) \<and>
   calls (snd (nilfs_ifile_create_inode two_block_ifile small_state)) =
     [Prepare_alloc_entry 2, Get_entry_block 2 4 True, Commit_alloc_entry 2 4,
      Mark_buffer_dirty 9, Mdt_mark_dirty 2] \<and>
   4 \<in> pa_allocated (snd (nilfs_ifile_create_inode two_block_ifile small_state)) 2 \<and>
   b_count (snd (nilfs_ifile_create_inode two_block_ifile small_state)) 9 = 1 \<and>
   palloc_find_slot two_block_ifile
     (pa_allocated (small_state\<lparr>pa_reserved := \<lambda>n. {4}\<rparr>) (i_id two_block_ifile) \<union>
      pa_reserved (small_state\<lparr>pa_reserved := \<lambda>n. {4}\<rparr>) (i_id two_block_ifile)) = Inl ENOSPC \<and>
   fst (nilfs_ifile_create_inode two_block_ifile (small_state\<lparr>pa_reserved := \<lambda>n. {4}\<rparr>)) =
     Inl ENOSPC"
proof -
  have f1: "palloc_find_slot broken_ifile
     (pa_allocated small_state (i_id broken_ifile) \<union> pa_reserved small_state (i_id broken_ifile))
     = Inr 4" "entry_block broken_ifile 4 True = Inl EIO" "i_id broken_ifile = 2"
    by (simp_all add: broken_ifile_def small_defs)
  have f2: "palloc_find_slot two_block_ifile
     (pa_allocated small_state (i_id two_block_ifile) \<union>
      pa_reserved small_state (i_id two_block_ifile)) = Inr 4"
     "entry_block two_block_ifile 4 True = Inr 9" "i_id two_block_ifile = 2"
    by (simp_all add: two_block_ifile_def small_defs)
  have f3: "palloc_find_slot two_block_ifile
     (pa_allocated (small_state\<lparr>pa_reserved := \<lambda>n. {4}\<rparr>) (i_id two_block_ifile) \<union>
      pa_reserved (small_state\<lparr>pa_reserved := \<lambda>n. {4}\<rparr>) (i_id two_block_ifile)) = Inl ENOSPC"
    by (simp add: two_block_ifile_def small_defs)
  have s0: "calls small_state = []" "b_count small_state 9 = 0"
    by (simp_all add: small_defs)
  note w1 = create_inode_protocol [OF prod.collapse [symmetric], of broken_ifile small_state]
  note w2 = create_inode_protocol [OF prod.collapse [symmetric], of two_block_ifile small_state]
  note w3 = create_inode_protocol [OF prod.collapse [symmetric], of two_block_ifile
              "small_state\<lparr>pa_reserved := \<lambda>n. {4}\<rparr>"]
  from w1 f1 have c1: "fst (nilfs_ifile_create_inode broken_ifile small_state) = Inl EIO"
    "calls (snd (nilfs_ifile_create_inode broken_ifile small_state)) =
       [Prepare_alloc_entry 2, Get_entry_block 2 4 True, Abort_alloc_entry 2 4, Brelse None]"
    "pa_allocated (snd (nilfs_ifile_create_inode broken_ifile small_state)) =
       pa_allocated small_state"
    by (simp_all add: s0)
  from w2 f2 have c2: "fst (nilfs_ifile_create_inode two_block_ifile small_state) = Inr (4, 9)"
    "calls (snd (nilfs_ifile_create_inode two_block_ifile small_state)) =
       [Prepare_alloc_entry 2, Get_entry_block 2 4 True, Commit_alloc_entry 2 4,
        Mark_buffer_dirty 9, Mdt_mark_dirty 2]"
    "4 \<in> pa_allocated (snd (nilfs_ifile_create_inode two_block_ifile small_state)) 2"
    "b_count (snd (nilfs_ifile_create_inode two_block_ifile small_state)) 9 = 1"
    by (simp_all add: s0)
  from w3 f3 have c3:
    "fst (nilfs_ifile_create_inode two_block_ifile (small_state\<lparr>pa_reserved := \<lambda>n. {4}\<rparr>)) =
       Inl ENOSPC"
    by simp
  from f1 f2 f3 c1 c2 c3 show ?thesis by simp
qed

subsection \<open>Deleting an inode\<close>

text \<open>
  C8. \<open>nilfs_ifile_delete_inode\<close> on an inode number that is not allocated returns
  \<open>ENOENT\<close>, and the state is as before but for the two calls made, the preparation
  of the free and \<open>brelse(NULL)\<close>: no inode is written, no block is marked dirty, no
  free is committed.
\<close>

theorem delete_inode_not_allocated:
  "i \<notin> pa_allocated s (i_id f) \<Longrightarrow>
     nilfs_ifile_delete_inode f i s =
       (Some ENOENT, s\<lparr>calls := calls s @ [Prepare_free_entry (i_id f) i, Brelse None]\<rparr>)"
  by (simp add: nilfs_ifile_delete_inode_def nilfs_palloc_prepare_free_entry_def brelse_def
        log_call_def Let_def)

theorem delete_inode_not_allocated_witness:
  "3 \<notin> pa_allocated small_state (i_id two_block_ifile) \<and>
   nilfs_ifile_delete_inode two_block_ifile 3 small_state =
     (Some ENOENT, small_state\<lparr>calls := [Prepare_free_entry 2 3, Brelse None]\<rparr>)"
proof -
  have h: "3 \<notin> pa_allocated small_state (i_id two_block_ifile)"
    by (simp add: small_defs)
  show ?thesis
    using h delete_inode_not_allocated [OF h]
    by (simp add: two_block_ifile_def small_defs)
qed

text \<open>
  C2, as claimed: a successful \<open>nilfs_ifile_delete_inode\<close> zeroes the link count of
  the inode, the field that \<open>nilfs_ifile_compare_block\<close> reads as "live". It does
  not: inode 0 has link count 1 in its block before the deletion and after it.
\<close>

theorem delete_inode_keeps_links_count:
  "fst (nilfs_ifile_delete_inode one_block_ifile 0 small_state) = None \<and>
   entry_block one_block_ifile 0 False = Inr 7 \<and>
   palloc_entry_index one_block_ifile 0 = 0 \<and>
   i_links_count (b_data small_state 7 0) = 1 \<and>
   i_links_count (b_data (snd (nilfs_ifile_delete_inode one_block_ifile 0 small_state)) 7 0) = 1"
  by (simp add: one_block_ifile_def small_defs nilfs_ifile_delete_inode_def op_defs Let_def)

text \<open>
  C2, as the code has it: a successful \<open>nilfs_ifile_delete_inode\<close> sets the
  \<open>i_flags\<close> of the inode to 0 in its block and leaves the link count as it was;
  then it marks the block dirty and releases it, and only then commits the free of the
  slot.
\<close>

theorem delete_inode_clears_flags:
  assumes "nilfs_ifile_delete_inode f i s = (None, s')"
  shows "\<exists>b. entry_block f i False = Inr b \<and>
           calls s' = calls s @
             [Prepare_free_entry (i_id f) i, Get_entry_block (i_id f) i False,
              Store_i_flags b (palloc_entry_index f i), Mark_buffer_dirty b, Brelse (Some b),
              Commit_free_entry (i_id f) i] \<and>
           i_flags (b_data s' b (palloc_entry_index f i)) = 0 \<and>
           i_links_count (b_data s' b (palloc_entry_index f i)) =
             i_links_count (b_data s b (palloc_entry_index f i)) \<and>
           b_dirty s' b \<and> i \<notin> pa_allocated s' (i_id f)"
  using assms
  by (auto simp: nilfs_ifile_delete_inode_def op_defs Let_def split: sum.splits if_splits)

theorem delete_inode_clears_flags_witness:
  "nilfs_ifile_delete_inode one_block_ifile 0 small_state =
     (None, snd (nilfs_ifile_delete_inode one_block_ifile 0 small_state)) \<and>
   calls (snd (nilfs_ifile_delete_inode one_block_ifile 0 small_state)) =
     [Prepare_free_entry 2 0, Get_entry_block 2 0 False, Store_i_flags 7 0,
      Mark_buffer_dirty 7, Brelse (Some 7), Commit_free_entry 2 0] \<and>
   i_flags (b_data (snd (nilfs_ifile_delete_inode one_block_ifile 0 small_state)) 7 0) = 0"
proof -
  have h: "nilfs_ifile_delete_inode one_block_ifile 0 small_state =
             (None, snd (nilfs_ifile_delete_inode one_block_ifile 0 small_state))"
    by (simp add: one_block_ifile_def small_defs nilfs_ifile_delete_inode_def op_defs Let_def)
  have e: "entry_block one_block_ifile 0 False = Inr 7" "palloc_entry_index one_block_ifile 0 = 0"
    "i_id one_block_ifile = 2" "calls small_state = []"
    by (simp_all add: one_block_ifile_def small_defs)
  from delete_inode_clears_flags [OF h] e h show ?thesis by auto
qed

subsection \<open>Looking up the block of an inode\<close>

text \<open>
  C9. For an inode number that \<open>NILFS_VALID_INODE\<close> rejects,
  \<open>nilfs_ifile_get_inode_block\<close> returns \<open>EINVAL\<close> and the only call made is the
  error report: no block is fetched. For any other number it fetches the block of the
  inode, not creating it, and returns what the fetch returns.
\<close>

theorem get_inode_block_checks_range:
  "(\<not> valid_inode f i \<longrightarrow>
      nilfs_ifile_get_inode_block f i s = (Inl EINVAL, s\<lparr>calls := calls s @ [Nilfs_error]\<rparr>)) \<and>
   (valid_inode f i \<longrightarrow>
      fst (nilfs_ifile_get_inode_block f i s) = entry_block f i False \<and>
      calls (snd (nilfs_ifile_get_inode_block f i s)) =
        calls s @ Get_entry_block (i_id f) i False #
          (case entry_block f i False of Inl e \<Rightarrow> [Nilfs_warning] | Inr b \<Rightarrow> []))"
  by (simp add: nilfs_ifile_get_inode_block_def nilfs_palloc_get_entry_block_def log_call_def
        Let_def split: sum.splits)

theorem get_inode_block_checks_range_witness:
  "\<not> valid_inode two_block_ifile 6 \<and>
   nilfs_ifile_get_inode_block two_block_ifile 6 small_state =
     (Inl EINVAL, small_state\<lparr>calls := [Nilfs_error]\<rparr>) \<and>
   valid_inode two_block_ifile 3 \<and>
   fst (nilfs_ifile_get_inode_block two_block_ifile 3 small_state) = Inr 8 \<and>
   calls (snd (nilfs_ifile_get_inode_block two_block_ifile 3 small_state)) =
     [Get_entry_block 2 3 False]"
  using get_inode_block_checks_range [of two_block_ifile 6 small_state]
        get_inode_block_checks_range [of two_block_ifile 3 small_state]
  by (simp add: two_block_ifile_def small_defs)

subsection \<open>The records of one block\<close>

lemma block_out_Nil: "block_out lo hi []"
  by (simp add: block_out_def)

lemma block_out_single: "lo \<le> ino c \<Longrightarrow> ino c \<le> hi \<Longrightarrow> block_out lo hi [c]"
  by (simp add: block_out_def)

lemma block_out_Cons:
  "block_out (Suc i) hi new \<Longrightarrow> ino c = i \<Longrightarrow> i \<le> hi \<Longrightarrow> block_out i hi (c # new)"
  by (auto simp: block_out_def)

lemma block_out_Suc: "block_out (Suc i) hi new \<Longrightarrow> block_out i hi new"
  by (auto simp: block_out_def)

lemma loop2_out:
  "\<exists>new. fst (compare_block_loop2 b m e i p chs s) = chs @ new \<and> block_out i e new"
proof (induction b m e i p chs s rule: compare_block_loop2.induct)
  case (1 b m e i p chs s)
  let ?c = "\<lparr>ino = i, bh1 = None, bh2 = Some b\<rparr>"
  show ?case
  proof (cases "i \<le> e")
    case False
    then show ?thesis
      by (subst compare_block_loop2.simps) (simp add: block_out_Nil)
  next
    case le: True
    show ?thesis
    proof (cases "i_links_count (b_data s b p) \<noteq> 0")
      case False
      with le "1.IH"(2) obtain new where
        "fst (compare_block_loop2 b m e (i + 1) (p + 1) chs s) = chs @ new" "block_out (Suc i) e new"
        by auto
      with le False show ?thesis
        by (subst compare_block_loop2.simps) (auto intro: block_out_Suc)
    next
      case live: True
      show ?thesis
      proof (cases "length (chs @ [?c]) = m")
        case True
        with le live show ?thesis
          by (subst compare_block_loop2.simps) (simp add: Let_def block_out_single)
      next
        case False
        with le live "1.IH"(1) [OF le live refl refl] obtain new where
          "fst (compare_block_loop2 b m e (i + 1) (p + 1) (chs @ [?c]) (get_bh b s)) = (chs @ [?c]) @ new"
          "block_out (Suc i) e new"
          by auto
        with le live False show ?thesis
          by (subst compare_block_loop2.simps) (auto simp: Let_def intro: block_out_Cons)
      qed
    qed
  qed
qed


lemma loop1_out:
  "\<exists>new. fst (compare_block_loop1 b m e i p chs s) = chs @ new \<and> block_out i e new"
proof (induction b m e i p chs s rule: compare_block_loop1.induct)
  case (1 b m e i p chs s)
  let ?c = "\<lparr>ino = i, bh1 = Some b, bh2 = None\<rparr>"
  show ?case
  proof (cases "i \<le> e")
    case False
    then show ?thesis
      by (subst compare_block_loop1.simps) (simp add: block_out_Nil)
  next
    case le: True
    show ?thesis
    proof (cases "i_links_count (b_data s b p) \<noteq> 0")
      case False
      with le "1.IH"(2) obtain new where
        "fst (compare_block_loop1 b m e (i + 1) (p + 1) chs s) = chs @ new" "block_out (Suc i) e new"
        by auto
      with le False show ?thesis
        by (subst compare_block_loop1.simps) (auto intro: block_out_Suc)
    next
      case live: True
      show ?thesis
      proof (cases "length (chs @ [?c]) = m")
        case True
        with le live show ?thesis
          by (subst compare_block_loop1.simps) (simp add: Let_def block_out_single)
      next
        case False
        with le live "1.IH"(1) [OF le live refl refl] obtain new where
          "fst (compare_block_loop1 b m e (i + 1) (p + 1) (chs @ [?c]) (get_bh b s)) = (chs @ [?c]) @ new"
          "block_out (Suc i) e new"
          by auto
        with le live False show ?thesis
          by (subst compare_block_loop1.simps) (auto simp: Let_def intro: block_out_Cons)
      qed
    qed
  qed
qed

lemma changed_inode_ino: "ino (fst (changed_inode b1 b2 i e1 e2 s)) = i"
  by (simp add: changed_inode_def)

lemma loop12_out:
  "\<exists>new. fst (compare_block_loop12 b1 b2 m e i p1 p2 chs s) = chs @ new \<and> block_out i e new"
proof (induction b1 b2 m e i p1 p2 chs s rule: compare_block_loop12.induct)
  case (1 b1 b2 m e i p1 p2 chs s)
  let ?ci = "changed_inode b1 b2 i (b_data s b1 p1) (b_data s b2 p2) s"
  let ?diff = "i_ctime_nsec (b_data s b1 p1) \<noteq> i_ctime_nsec (b_data s b2 p2) \<or>
               i_ctime (b_data s b1 p1) \<noteq> i_ctime (b_data s b2 p2)"
  show ?case
  proof (cases "i \<le> e")
    case False
    then show ?thesis
      by (subst compare_block_loop12.simps) (simp add: block_out_Nil)
  next
    case le: True
    show ?thesis
    proof (cases ?diff)
      case False
      with le "1.IH"(2) obtain new where
        "fst (compare_block_loop12 b1 b2 m e (i + 1) (p1 + 1) (p2 + 1) chs s) = chs @ new"
        "block_out (Suc i) e new"
        by auto
      with le False show ?thesis
        by (subst compare_block_loop12.simps) (auto intro: block_out_Suc)
    next
      case changed: True
      obtain c s1 where ci: "?ci = (c, s1)" by (cases ?ci)
      then have c: "ino c = i"
        using changed_inode_ino [of b1 b2 i "b_data s b1 p1" "b_data s b2 p2" s] by simp
      show ?thesis
      proof (cases "length (chs @ [c]) = m")
        case True
        with le changed ci c show ?thesis
          by (subst compare_block_loop12.simps) (simp add: Let_def block_out_single)
      next
        case False
        with "1.IH"(1) [OF le changed ci [symmetric] refl refl] obtain new where
          "fst (compare_block_loop12 b1 b2 m e (i + 1) (p1 + 1) (p2 + 1) (chs @ [c]) s1) =
             (chs @ [c]) @ new"
          "block_out (Suc i) e new"
          by auto
        with le changed False ci c show ?thesis
          by (subst compare_block_loop12.simps) (auto simp: Let_def intro: block_out_Cons)
      qed
    qed
  qed
qed

lemma err_neg: "err e < 0"
  by (cases e) (simp_all add: err_def)

lemma compare_block_scan_out:
  "\<exists>new. fst (compare_block_scan f1 f2 ibh1 ibh2 m e i s) = new \<and> block_out i e new"
  using loop2_out [of _ m e i _ "[]" s] loop1_out [of _ m e i _ "[]" s]
        loop12_out [of _ _ m e i _ _ "[]" s]
  by (auto simp: compare_block_scan_def block_out_Nil split: option.splits)

lemma compare_block_out:
  assumes "nilfs_ifile_compare_block f1 f2 start d m s = (n, new, s')"
  shows "(n < 0 \<longrightarrow> new = []) \<and> (0 \<le> n \<longrightarrow> n = int (length new)) \<and>
         (new \<noteq> [] \<longrightarrow>
            (\<exists>nr. palloc_block_type f1 (key d) = Some nr \<and>
                  block_out (max nr start) (nr + mi_entries_per_block f1 - 1) new))"
proof (cases "palloc_block_type f1 (key d)")
  case None
  with assms show ?thesis by (simp add: nilfs_ifile_compare_block_def)
next
  case (Some nr)
  let ?i = "max nr start" and ?e = "nr + mi_entries_per_block f1 - 1"
  have neg: "\<And>e. \<not> 0 \<le> err e" using err_neg by (simp add: not_le)
  have sc: "\<And>a b e i t chs t'. compare_block_scan f1 f2 a b m e i t = (chs, t') \<Longrightarrow> block_out i e chs"
    using compare_block_scan_out [of f1 f2 _ _ m] by (metis fst_conv)
  from assms Some show ?thesis
    by (auto simp: nilfs_ifile_compare_block_def Let_def err_neg neg
          split: sum.splits prod.splits if_splits dest: sc)
qed


lemma scan_inv_Nil: "scan_inv f start K []"
  by (simp add: scan_inv_def)

lemma scan_inv_mono: "scan_inv f start K chs \<Longrightarrow> K \<le> K' \<Longrightarrow> scan_inv f start K' chs"
  unfolding scan_inv_def by (meson le_trans)

lemma scan_inv_append:
  assumes lay: "palloc_layout_ascending f"
      and inv: "scan_inv f start K chs"
      and K: "K \<le> k"
      and bt: "palloc_block_type f k = Some nr"
      and out: "block_out (max nr start) (nr + mi_entries_per_block f - 1) new"
  shows "scan_inv f start (Suc k) (chs @ new)"
proof -
  have old: "\<And>c. c \<in> set chs \<Longrightarrow> ino c < nr"
    using inv K bt by (auto simp: scan_inv_def)
  have new: "\<And>c. c \<in> set new \<Longrightarrow> nr \<le> ino c \<and> start \<le> ino c \<and> ino c < nr + mi_entries_per_block f"
    using out lay by (fastforce simp: block_out_def palloc_layout_ascending_def)
  have later: "\<And>k' nr'. Suc k \<le> k' \<Longrightarrow> palloc_block_type f k' = Some nr'
                 \<Longrightarrow> nr + mi_entries_per_block f \<le> nr'"
    using lay bt by (auto simp: palloc_layout_ascending_def Suc_le_eq)
  have "sorted_wrt (<) (map ino (chs @ new))"
    using inv out old new by (fastforce simp: scan_inv_def block_out_def sorted_wrt_append)
  moreover have "\<forall>c\<in>set (chs @ new). start \<le> ino c"
    using inv new by (auto simp: scan_inv_def)
  moreover have "\<forall>c\<in>set (chs @ new). \<forall>k' nr'. Suc k \<le> k' \<and> palloc_block_type f k' = Some nr'
                   \<longrightarrow> ino c < nr'"
  proof (intro ballI allI impI)
    fix c k' nr'
    assume c: "c \<in> set (chs @ new)" and k': "Suc k \<le> k' \<and> palloc_block_type f k' = Some nr'"
    then have far: "nr + mi_entries_per_block f \<le> nr'" using later by blast
    from c show "ino c < nr'"
    proof (cases "c \<in> set chs")
      case True
      with old [of c] far show ?thesis by simp
    next
      case False
      with c have "c \<in> set new" by simp
      with new [of c] far show ?thesis by simp
    qed
  qed
  ultimately show ?thesis by (simp add: scan_inv_def)
qed

lemma compare_for_inv:
  assumes lay: "palloc_layout_ascending f1"
  shows "sorted_wrt (<) (map key ds) \<Longrightarrow> \<forall>d\<in>set ds. K \<le> key d \<and> key d < K' \<Longrightarrow> K \<le> K'
     \<Longrightarrow> scan_inv f1 start K chs \<Longrightarrow> nc = int (length chs)
     \<Longrightarrow> compare_for f1 f2 start m ds nc chs s = (ex, nc', chs', s')
     \<Longrightarrow> scan_inv f1 start K' chs' \<and> (ex = Goto_failed \<longrightarrow> nc' < 0) \<and>
         (ex \<noteq> Goto_failed \<longrightarrow> nc' = int (length chs'))"
proof (induction ds arbitrary: K nc chs s)
  case Nil
  then show ?case by (auto intro: scan_inv_mono)
next
  case (Cons d ds)
  obtain n new s1 where blk:
    "nilfs_ifile_compare_block f1 f2 start d (size_t_of (int m - nc)) s = (n, new, s1)"
    by (cases "nilfs_ifile_compare_block f1 f2 start d (size_t_of (int m - nc)) s") auto
  note out = compare_block_out [OF blk]
  have Kd: "K \<le> key d" "key d < K'" using Cons.prems(2) by auto
  have inv1: "scan_inv f1 start (Suc (key d)) (chs @ new)"
  proof (cases "new = []")
    case True
    with Cons.prems(4) Kd show ?thesis by (auto intro: scan_inv_mono [of f1 start K])
  next
    case False
    with out obtain nr where "palloc_block_type f1 (key d) = Some nr"
      "block_out (max nr start) (nr + mi_entries_per_block f1 - 1) new" by blast
    with lay Cons.prems(4) Kd show ?thesis by (blast intro: scan_inv_append)
  qed
  show ?case
  proof (cases "n < 0")
    case True
    with Cons.prems(6) blk have "ex = Goto_failed" "nc' = n" "chs' = chs @ new" by auto
    with True inv1 Kd show ?thesis by (auto intro: scan_inv_mono)
  next
    case nonneg: False
    with out have len: "nc + n = int (length (chs @ new))" using Cons.prems(5) by auto
    show ?thesis
    proof (cases "size_t_of (nc + n) = m")
      case True
      with nonneg Cons.prems(6) blk have "ex = Goto_out" "nc' = nc + n" "chs' = chs @ new" by auto
      with len inv1 Kd show ?thesis by (auto intro: scan_inv_mono)
    next
      case False
      with nonneg Cons.prems(6) blk have run:
        "compare_for f1 f2 start m ds (nc + n) (chs @ new) s1 = (ex, nc', chs', s')" by auto
      have keys: "sorted_wrt (<) (map key ds)" "\<forall>d'\<in>set ds. Suc (key d) \<le> key d' \<and> key d' < K'"
        using Cons.prems(1,2) by auto
      from Cons.IH [OF keys _ inv1 len run] Kd show ?thesis by auto
    qed
  qed
qed


lemma bmap_diffs_key:
  "d \<in> set (bmap_diffs f1 f2 blkoff)
     \<Longrightarrow> blkoff \<le> key d \<and> key d < max (i_bmap_end f1) (i_bmap_end f2)"
  by (auto simp: bmap_diffs_def)

lemma nilfs_bmap_compare_Inr:
  "nilfs_bmap_compare f1 f2 blkoff maxdiffs s = (Inr diffs, s1)
     \<Longrightarrow> diffs = take maxdiffs (bmap_diffs f1 f2 blkoff)"
  by (auto simp: nilfs_bmap_compare_def Let_def split: option.splits)

lemma nilfs_bmap_compare_last:
  assumes "nilfs_bmap_compare f1 f2 blkoff maxdiffs s = (Inr diffs, s1)" and "diffs \<noteq> []"
  shows "blkoff \<le> key (last diffs) \<and> key (last diffs) < max (i_bmap_end f1) (i_bmap_end f2)"
proof -
  from assms have "last diffs \<in> set (bmap_diffs f1 f2 blkoff)"
    by (metis nilfs_bmap_compare_Inr in_set_takeD last_in_set)
  then show ?thesis by (rule bmap_diffs_key)
qed

lemma bmap_diffs_sorted: "sorted_wrt (<) (map key (bmap_diffs f1 f2 blkoff))"
proof -
  have "map key (bmap_diffs f1 f2 blkoff) =
          filter (\<lambda>k. i_bmap f1 k \<noteq> i_bmap f2 k) [blkoff ..< max (i_bmap_end f1) (i_bmap_end f2)]"
    by (simp add: bmap_diffs_def comp_def)
  then show ?thesis by (simp add: sorted_wrt_filter)
qed

lemma sorted_keys_le_last:
  "sorted_wrt (<) (map key ds) \<Longrightarrow> d \<in> set ds \<Longrightarrow> key d \<le> key (last ds)"
  by (induction ds) (auto simp: less_imp_le)

lemma nilfs_bmap_compare_keys:
  assumes "nilfs_bmap_compare f1 f2 blkoff maxdiffs s = (Inr diffs, s1)"
  shows "sorted_wrt (<) (map key diffs)"
    and "\<forall>d\<in>set diffs. blkoff \<le> key d \<and> key d < key (last diffs) + 1"
proof -
  have eq: "diffs = take maxdiffs (bmap_diffs f1 f2 blkoff)"
    using assms by (rule nilfs_bmap_compare_Inr)
  have "sorted_wrt (<) (take maxdiffs (map key (bmap_diffs f1 f2 blkoff)))"
    using bmap_diffs_sorted by (rule sorted_wrt_take)
  then show sorted: "sorted_wrt (<) (map key diffs)" by (simp add: eq take_map)
  show "\<forall>d\<in>set diffs. blkoff \<le> key d \<and> key d < key (last diffs) + 1"
  proof
    fix d assume d: "d \<in> set diffs"
    then have "d \<in> set (bmap_diffs f1 f2 blkoff)" unfolding eq by (rule in_set_takeD)
    then have "blkoff \<le> key d" using bmap_diffs_key by blast
    moreover have "key d \<le> key (last diffs)" using sorted d by (rule sorted_keys_le_last)
    ultimately show "blkoff \<le> key d \<and> key d < key (last diffs) + 1" by simp
  qed
qed

lemma compare_do_inv:
  "palloc_layout_ascending f1 \<Longrightarrow> scan_inv f1 start blkoff chs \<Longrightarrow> nc = int (length chs)
     \<Longrightarrow> compare_do maxdiffs f1 f2 start m blkoff nc chs s = (n, chs', s')
     \<Longrightarrow> (\<exists>K. scan_inv f1 start K chs') \<and> (0 \<le> n \<longrightarrow> n = int (length chs'))"
proof (induction maxdiffs f1 f2 start m blkoff nc chs s rule: compare_do.induct)
  case (1 maxdiffs f1 f2 start m blkoff nc chs s)
  note unf = compare_do.simps [of maxdiffs f1 f2 start m blkoff nc chs s]
  obtain r s1 where cmp: "nilfs_bmap_compare f1 f2 blkoff maxdiffs s = (r, s1)"
    by (cases "nilfs_bmap_compare f1 f2 blkoff maxdiffs s") auto
  show ?case
  proof (cases r)
    case (Inl e)
    with cmp "1.prems"(4) have "n = err e" "chs' = chs" by (simp_all add: unf)
    with "1.prems"(2) err_neg [of e] show ?thesis by auto
  next
    case (Inr diffs)
    show ?thesis
    proof (cases "diffs = []")
      case True
      with Inr cmp "1.prems"(4) have "n = nc" "chs' = chs" by (simp_all add: unf)
      with "1.prems"(2,3) show ?thesis by auto
    next
      case ne: False
      obtain ex nc1 chs1 s2 where cf:
        "compare_for f1 f2 start m diffs nc chs s1 = (ex, nc1, chs1, s2)"
        by (cases "compare_for f1 f2 start m diffs nc chs s1") auto
      note keys = nilfs_bmap_compare_keys [OF cmp [unfolded Inr]]
      have "blkoff \<le> key (last diffs) + 1"
        using nilfs_bmap_compare_last [OF cmp [unfolded Inr] ne] by simp
      from compare_for_inv [OF "1.prems"(1) keys this "1.prems"(2,3) cf]
      have inv: "scan_inv f1 start (key (last diffs) + 1) chs1"
        and neg: "ex = Goto_failed \<longrightarrow> nc1 < 0"
        and len: "ex \<noteq> Goto_failed \<longrightarrow> nc1 = int (length chs1)" by auto
      show ?thesis
      proof (cases "ex = Loop_end \<and> length diffs = maxdiffs")
        case True
        with Inr cmp ne cf "1.prems"(4) have run:
          "compare_do maxdiffs f1 f2 start m (key (last diffs) + 1) nc1 chs1 s2 = (n, chs', s')"
          by (simp add: unf)
        from True len have len1: "nc1 = int (length chs1)" by simp
        from True show ?thesis
          using "1.IH" [OF cmp [symmetric] Inr ne cf [symmetric] _ refl refl _
                          "1.prems"(1) inv len1 run]
          by simp
      next
        case False
        with Inr cmp ne cf "1.prems"(4) have "n = nc1" "chs' = chs1"
          by (cases ex; simp add: unf)+
        with inv neg len show ?thesis by (cases ex) auto
      qed
    qed
  qed
qed

subsection \<open>Comparing: blocks that are not entry blocks\<close>

text \<open>
  Every head of the loop that a run comes to lies on the run: its result is what the
  loop, and what follows it, make of that head. And with a capacity above 0 the count
  at a head is not the capacity.
\<close>

lemma compare_do_batch:
  assumes "nilfs_bmap_compare f1 f2 blkoff maxdiffs s = (Inr diffs, s1)" and "diffs \<noteq> []"
  shows "compare_do maxdiffs f1 f2 start m blkoff nc chs s =
           compare_after_for maxdiffs f1 f2 start m diffs (compare_for f1 f2 start m diffs nc chs s1)"
  using assms
  by (simp add: compare_do.simps [of maxdiffs f1 f2 start m blkoff nc chs s] compare_after_for_def
        split: prod.splits loop_exit.splits)

lemma compare_reaches_run:
  "compare_reaches maxdiffs f1 f2 start m s0 batch diffs nc chs s \<Longrightarrow>
     compare_after_for maxdiffs f1 f2 start m batch (compare_for f1 f2 start m diffs nc chs s) =
       nilfs_ifile_compare maxdiffs f1 f2 start m s0"
proof (induction rule: compare_reaches.induct)
  case (first_batch diffs s1)
  then show ?case
    by (simp add: nilfs_ifile_compare_def compare_do_batch)
next
  case (next_block batch d diffs nc changes s n chs s1)
  then show ?case by simp
next
  case (next_batch batch nc changes s diffs s1)
  then show ?case
    by (simp add: compare_after_for_def compare_do_batch)
qed

lemma compare_reaches_capacity:
  "compare_reaches maxdiffs f1 f2 start m s0 batch diffs nc chs s \<Longrightarrow> 0 < m
     \<Longrightarrow> size_t_of nc \<noteq> m"
  by (induction rule: compare_reaches.induct) (simp_all add: size_t_of_def)

text \<open>
  C10, as claimed: after a differing block that is not an entry block the scan goes
  on with the next differing block. It does not when \<open>maxchanges\<close> is 0: the differ
  reports the bitmap block 3 and then the entry block 4 with the live inodes 2 and
  3; the run with capacity 0 ends after block 3, by \<open>nc == maxchanges\<close>, with the
  probe of the differ as its only call, and never looks at block 4 (the run with
  capacity 10 fetches it and finds both inodes).
\<close>

theorem compare_stops_at_other_block:
  "bmap_diffs first_group_ifile two_block_ifile (palloc_entry_blkoff first_group_ifile 0) =
     [\<lparr>key = 3, ptr1 = 0, ptr2 = 13\<rparr>, \<lparr>key = 4, ptr1 = 0, ptr2 = 30\<rparr>] \<and>
   palloc_block_type first_group_ifile 3 = None \<and>
   palloc_block_type first_group_ifile 4 = Some 2 \<and>
   (case nilfs_ifile_compare 170 first_group_ifile two_block_ifile 0 0 small_state of
      (n, changes, s') \<Rightarrow> n = 0 \<and> changes = [] \<and> calls s' = [Bmap_compare 2 170]) \<and>
   (case nilfs_ifile_compare 170 first_group_ifile two_block_ifile 0 10 small_state of
      (n, changes, s') \<Rightarrow>
        n = 2 \<and>
        changes = [\<lparr>ino = 2, bh1 = None, bh2 = Some 8\<rparr>, \<lparr>ino = 3, bh1 = None, bh2 = Some 8\<rparr>] \<and>
        calls s' = [Bmap_compare 2 170, Get_entry_block 2 2 False, Get_bh 8, Get_bh 8,
                    Brelse None, Brelse (Some 8)])"
  by code_simp

text \<open>
  C10, as the code has it. For a differing block that the allocator does not classify
  as an entry block, \<open>nilfs_ifile_compare_block\<close> returns 0, writes no record and
  leaves the state as it is, so no block is fetched on either side. And when
  \<open>maxchanges\<close> is above 0 and a run of \<open>nilfs_ifile_compare\<close> comes to such a
  block, it comes to the next differing block with the same count, records and state;
  the \<open>for\<close> loop yields from this block on what it yields from the next block on,
  and the result of the run is what the code makes of the scan from the next block on.
\<close>

theorem compare_skips_other_blocks:
  assumes "palloc_block_type ifile1 (key d) = None"
  shows "nilfs_ifile_compare_block ifile1 ifile2 start d cap t = (0, [], t) \<and>
         (0 < maxchanges \<and>
          compare_reaches maxdiffs ifile1 ifile2 start maxchanges s0 batch (d # diffs) nc changes s
          \<longrightarrow>
            compare_reaches maxdiffs ifile1 ifile2 start maxchanges s0 batch diffs nc changes s \<and>
            compare_for ifile1 ifile2 start maxchanges (d # diffs) nc changes s =
              compare_for ifile1 ifile2 start maxchanges diffs nc changes s \<and>
            nilfs_ifile_compare maxdiffs ifile1 ifile2 start maxchanges s0 =
              compare_after_for maxdiffs ifile1 ifile2 start maxchanges batch
                (compare_for ifile1 ifile2 start maxchanges diffs nc changes s))"
proof -
  have blk: "\<And>cap t. nilfs_ifile_compare_block ifile1 ifile2 start d cap t = (0, [], t)"
    using assms by (simp add: nilfs_ifile_compare_block_def)
  {
    assume m: "0 < maxchanges"
      and r: "compare_reaches maxdiffs ifile1 ifile2 start maxchanges s0 batch (d # diffs) nc changes s"
    from compare_reaches_capacity [OF r m] have ne: "size_t_of nc \<noteq> maxchanges" .
    from compare_reaches.next_block [OF r blk _] ne
    have r': "compare_reaches maxdiffs ifile1 ifile2 start maxchanges s0 batch diffs nc changes s"
      by simp
    have eq: "compare_for ifile1 ifile2 start maxchanges (d # diffs) nc changes s =
                compare_for ifile1 ifile2 start maxchanges diffs nc changes s"
      using blk ne by simp
    note r' eq compare_reaches_run [OF r', symmetric]
  }
  with blk show ?thesis by blast
qed

lemma first_group_diffs:
  "bmap_diffs first_group_ifile two_block_ifile 2 =
     [\<lparr>key = 3, ptr1 = 0, ptr2 = 13\<rparr>, \<lparr>key = 4, ptr1 = 0, ptr2 = 30\<rparr>]"
  by code_simp

theorem compare_skips_other_blocks_witness:
  "palloc_block_type first_group_ifile (key \<lparr>key = 3, ptr1 = 0, ptr2 = 13\<rparr>) = None \<and>
   (0::nat) < 10 \<and>
   compare_reaches 170 first_group_ifile two_block_ifile 0 10 small_state
     [\<lparr>key = 3, ptr1 = 0, ptr2 = 13\<rparr>, \<lparr>key = 4, ptr1 = 0, ptr2 = 30\<rparr>]
     [\<lparr>key = 3, ptr1 = 0, ptr2 = 13\<rparr>, \<lparr>key = 4, ptr1 = 0, ptr2 = 30\<rparr>] 0 []
     (log_call (Bmap_compare 2 170) small_state) \<and>
   nilfs_ifile_compare_block first_group_ifile two_block_ifile 0 \<lparr>key = 3, ptr1 = 0, ptr2 = 13\<rparr> 10
     (log_call (Bmap_compare 2 170) small_state) =
     (0, [], log_call (Bmap_compare 2 170) small_state) \<and>
   compare_reaches 170 first_group_ifile two_block_ifile 0 10 small_state
     [\<lparr>key = 3, ptr1 = 0, ptr2 = 13\<rparr>, \<lparr>key = 4, ptr1 = 0, ptr2 = 30\<rparr>]
     [\<lparr>key = 4, ptr1 = 0, ptr2 = 30\<rparr>] 0 []
     (log_call (Bmap_compare 2 170) small_state) \<and>
   nilfs_ifile_compare 170 first_group_ifile two_block_ifile 0 10 small_state =
     compare_after_for 170 first_group_ifile two_block_ifile 0 10
       [\<lparr>key = 3, ptr1 = 0, ptr2 = 13\<rparr>, \<lparr>key = 4, ptr1 = 0, ptr2 = 30\<rparr>]
       (compare_for first_group_ifile two_block_ifile 0 10 [\<lparr>key = 4, ptr1 = 0, ptr2 = 30\<rparr>] 0 []
          (log_call (Bmap_compare 2 170) small_state))"
proof -
  let ?d3 = "\<lparr>key = 3, ptr1 = 0, ptr2 = 13\<rparr>" and ?d4 = "\<lparr>key = 4, ptr1 = 0, ptr2 = 30\<rparr>"
  let ?s1 = "log_call (Bmap_compare 2 170) small_state"
  have h1: "palloc_block_type first_group_ifile (key ?d3) = None"
    by (simp add: first_group_ifile_def small_ifile_def)
  have h2: "(0::nat) < 10" by simp
  have off: "palloc_entry_blkoff first_group_ifile 0 = 2"
    by (simp add: first_group_ifile_def small_ifile_def)
  have nofault: "bmap_fault first_group_ifile 2 = None" "bmap_fault two_block_ifile 2 = None"
    by (simp_all add: first_group_ifile_def two_block_ifile_def small_ifile_def)
  have probe: "nilfs_bmap_compare first_group_ifile two_block_ifile
                 (palloc_entry_blkoff first_group_ifile 0) 170 small_state = (Inr [?d3, ?d4], ?s1)"
    unfolding off by (simp add: nilfs_bmap_compare_def Let_def nofault first_group_diffs)
  have page: "page_avail small_state" by (simp add: small_state_def)
  have h3: "compare_reaches 170 first_group_ifile two_block_ifile 0 10 small_state
              [?d3, ?d4] [?d3, ?d4] 0 [] ?s1"
    by (rule compare_reaches.first_batch [OF page probe]) simp
  from compare_skips_other_blocks [OF h1, of two_block_ifile 0 10 ?s1 10 170 small_state
         "[?d3, ?d4]" "[?d4]" 0 "[]" ?s1] h1 h2 h3
  show ?thesis by simp
qed

text \<open>
  The whole comparison over such a block: the target has the bitmap block 3 between
  its two entry blocks, and the records of both entry blocks are found.
\<close>

lemma compare_over_bitmap_block:
  "case nilfs_ifile_compare 170 empty_ifile two_block_ifile 0 10 small_state of
     (n, changes, s') \<Rightarrow>
       bmap_diffs empty_ifile two_block_ifile 2 =
         [\<lparr>key = 2, ptr1 = 0, ptr2 = 20\<rparr>, \<lparr>key = 3, ptr1 = 0, ptr2 = 13\<rparr>,
          \<lparr>key = 4, ptr1 = 0, ptr2 = 30\<rparr>] \<and>
       n = 4 \<and> map ino changes = [0, 1, 2, 3] \<and>
       calls s' = [Bmap_compare 2 170, Get_entry_block 2 0 False, Get_bh 7, Get_bh 7,
                   Brelse None, Brelse (Some 7), Get_entry_block 2 2 False, Get_bh 8,
                   Get_bh 8, Brelse None, Brelse (Some 8)]"
  by code_simp

subsection \<open>Comparing: the order of the records\<close>

lemma small_layout_ascending: "palloc_layout_ascending (small_ifile n bm blk)"
  unfolding palloc_layout_ascending_def small_ifile_def
  by (auto split: if_splits elim!: evenE)

text \<open>
  C6. Under an ascending layout of the allocator, the records that
  \<open>nilfs_ifile_compare\<close> writes have strictly ascending inode numbers, none below
  \<open>start\<close>; and when it returns a count, this is the number of records written.
  (Within one block the records lie between \<open>max nr start\<close> and the last inode of
  the block, by \<open>compare_block_out\<close>.)
\<close>

theorem compare_ascending:
  assumes "palloc_layout_ascending ifile1"
  shows "case nilfs_ifile_compare maxdiffs ifile1 ifile2 start maxchanges s of
           (n, changes, s') \<Rightarrow>
             sorted_wrt (<) (map ino changes) \<and> (\<forall>c\<in>set changes. start \<le> ino c) \<and>
             (0 \<le> n \<longrightarrow> n = int (length changes))"
proof (cases "page_avail s")
  case False
  then show ?thesis by (simp add: nilfs_ifile_compare_def err_def)
next
  case True
  obtain n changes s' where run:
    "compare_do maxdiffs ifile1 ifile2 start maxchanges (palloc_entry_blkoff ifile1 start) 0 [] s
       = (n, changes, s')"
    by (cases "compare_do maxdiffs ifile1 ifile2 start maxchanges
                 (palloc_entry_blkoff ifile1 start) 0 [] s") auto
  from compare_do_inv [OF assms scan_inv_Nil _ run]
  have "(\<exists>K. scan_inv ifile1 start K changes) \<and> (0 \<le> n \<longrightarrow> n = int (length changes))" by simp
  with True run show ?thesis by (auto simp: nilfs_ifile_compare_def scan_inv_def)
qed

theorem compare_ascending_witness:
  "palloc_layout_ascending empty_ifile \<and>
   (case nilfs_ifile_compare 170 empty_ifile two_block_ifile 1 3 small_state of
      (n, changes, s') \<Rightarrow>
        sorted_wrt (<) (map ino changes) \<and> (\<forall>c\<in>set changes. 1 \<le> ino c) \<and>
        (0 \<le> n \<longrightarrow> n = int (length changes)))"
proof -
  have h: "palloc_layout_ascending empty_ifile"
    unfolding empty_ifile_def by (rule small_layout_ascending)
  show ?thesis
    using h compare_ascending [OF h, where maxdiffs = 170 and ?ifile2.0 = two_block_ifile
                               and start = 1 and maxchanges = 3 and s = small_state]
    by simp
qed

subsection \<open>Comparing: a failure after records were produced\<close>

text \<open>
  After the label \<open>failed\<close> the loop runs up to \<open>nc\<close>, which by then holds the
  negative error code: it releases nothing.
\<close>

lemma compare_failed_neg: "nc \<le> 0 \<Longrightarrow> compare_failed 0 nc changes s = s"
  by (subst compare_failed.simps) simp

text \<open>
  C1. The target has the blocks of the inodes 0..3, of which the second cannot be
  read. \<open>nilfs_ifile_compare\<close> writes the records of inodes 0 and 1, each with a
  reference to buffer head 7, fails with \<open>EIO\<close> on the second block, and returns
  the error with both references still held: the only release of buffer head 7 is
  that of the fetch itself.
\<close>

theorem compare_leaks_on_failure:
  "case nilfs_ifile_compare 170 empty_ifile broken_ifile 0 10 small_state of
     (n, changes, s') \<Rightarrow>
       n = err EIO \<and>
       changes = [\<lparr>ino = 0, bh1 = None, bh2 = Some 7\<rparr>, \<lparr>ino = 1, bh1 = None, bh2 = Some 7\<rparr>] \<and>
       b_count small_state 7 = 0 \<and> b_count s' 7 = 2 \<and>
       calls s' = [Bmap_compare 2 170, Get_entry_block 2 0 False, Get_bh 7, Get_bh 7,
                   Brelse None, Brelse (Some 7), Get_entry_block 2 2 False, Brelse None]"
  by code_simp

subsection \<open>Comparing: a capacity of at least one\<close>

text \<open>
  A loop of \<open>nilfs_ifile_compare_block\<close> that ends with fewer records than a smaller
  capacity allows runs the same under that capacity; in any case the records under the
  smaller capacity are the first ones of those under the larger.
\<close>

lemma loop2_length: "length chs \<le> length (fst (compare_block_loop2 b m e i p chs s))"
  using loop2_out [of b m e i p chs s] by auto

lemma loop2_same:
  "length (fst (compare_block_loop2 b m' e i p chs s)) < m \<Longrightarrow> m \<le> m'
     \<Longrightarrow> compare_block_loop2 b m e i p chs s = compare_block_loop2 b m' e i p chs s"
proof (induction b m' e i p chs s rule: compare_block_loop2.induct)
  case (1 b m' e i p chs s)
  let ?c = "\<lparr>ino = i, bh1 = None, bh2 = Some b\<rparr>"
  note unf' = compare_block_loop2.simps [of b m' e i p chs s]
  note unf = compare_block_loop2.simps [of b m e i p chs s]
  show ?case
  proof (cases "i \<le> e")
    case False
    then show ?thesis by (simp add: unf unf')
  next
    case le: True
    show ?thesis
    proof (cases "i_links_count (b_data s b p) \<noteq> 0")
      case False
      with le "1.prems" have "length (fst (compare_block_loop2 b m' e (i + 1) (p + 1) chs s)) < m"
        by (simp add: unf')
      with "1.IH"(2) [OF le False] "1.prems"(2) le False show ?thesis
        by (simp add: unf unf')
    next
      case live: True
      have ne': "length (chs @ [?c]) \<noteq> m'"
        using "1.prems" le live by (auto simp: unf' Let_def)
      with le live "1.prems" have len:
        "length (fst (compare_block_loop2 b m' e (i + 1) (p + 1) (chs @ [?c]) (get_bh b s))) < m"
        by (simp add: unf' Let_def)
      with loop2_length [of "chs @ [?c]" b m' e "i + 1" "p + 1" "get_bh b s"]
      have ne: "length (chs @ [?c]) \<noteq> m" by simp
      from "1.IH"(1) [OF le live refl refl ne' len "1.prems"(2)] le live ne ne'
      show ?thesis by (simp add: unf unf' Let_def)
    qed
  qed
qed

lemma loop2_take:
  "length chs < m \<Longrightarrow> m \<le> m'
     \<Longrightarrow> fst (compare_block_loop2 b m e i p chs s) =
           take m (fst (compare_block_loop2 b m' e i p chs s))"
proof (induction b m e i p chs s rule: compare_block_loop2.induct)
  case (1 b m e i p chs s)
  let ?c = "\<lparr>ino = i, bh1 = None, bh2 = Some b\<rparr>"
  note unf' = compare_block_loop2.simps [of b m' e i p chs s]
  note unf = compare_block_loop2.simps [of b m e i p chs s]
  show ?case
  proof (cases "i \<le> e")
    case False
    with "1.prems" show ?thesis by (simp add: unf unf')
  next
    case le: True
    show ?thesis
    proof (cases "i_links_count (b_data s b p) \<noteq> 0")
      case False
      with "1.IH"(2) [OF le False "1.prems"] le show ?thesis
        by (simp add: unf unf')
    next
      case live: True
      show ?thesis
      proof (cases "length (chs @ [?c]) = m")
        case True
        obtain new where
          "fst (compare_block_loop2 b m' e (i + 1) (p + 1) (chs @ [?c]) (get_bh b s)) =
             (chs @ [?c]) @ new"
          using loop2_out [of b m' e "i + 1" "p + 1" "chs @ [?c]" "get_bh b s"] by auto
        with True le live show ?thesis
          by (auto simp: unf unf' Let_def)
      next
        case False
        with "1.prems" have lt: "length (chs @ [?c]) < m" by simp
        with "1.prems"(2) have ne': "length (chs @ [?c]) \<noteq> m'" by simp
        from "1.IH"(1) [OF le live refl refl False lt "1.prems"(2)] le live False ne'
        show ?thesis by (simp add: unf unf' Let_def)
      qed
    qed
  qed
qed

lemma loop1_length: "length chs \<le> length (fst (compare_block_loop1 b m e i p chs s))"
  using loop1_out [of b m e i p chs s] by auto

lemma loop1_same:
  "length (fst (compare_block_loop1 b m' e i p chs s)) < m \<Longrightarrow> m \<le> m'
     \<Longrightarrow> compare_block_loop1 b m e i p chs s = compare_block_loop1 b m' e i p chs s"
proof (induction b m' e i p chs s rule: compare_block_loop1.induct)
  case (1 b m' e i p chs s)
  let ?c = "\<lparr>ino = i, bh1 = Some b, bh2 = None\<rparr>"
  note unf' = compare_block_loop1.simps [of b m' e i p chs s]
  note unf = compare_block_loop1.simps [of b m e i p chs s]
  show ?case
  proof (cases "i \<le> e")
    case False
    then show ?thesis by (simp add: unf unf')
  next
    case le: True
    show ?thesis
    proof (cases "i_links_count (b_data s b p) \<noteq> 0")
      case False
      with le "1.prems" have "length (fst (compare_block_loop1 b m' e (i + 1) (p + 1) chs s)) < m"
        by (simp add: unf')
      with "1.IH"(2) [OF le False] "1.prems"(2) le False show ?thesis
        by (simp add: unf unf')
    next
      case live: True
      have ne': "length (chs @ [?c]) \<noteq> m'"
        using "1.prems" le live by (auto simp: unf' Let_def)
      with le live "1.prems" have len:
        "length (fst (compare_block_loop1 b m' e (i + 1) (p + 1) (chs @ [?c]) (get_bh b s))) < m"
        by (simp add: unf' Let_def)
      with loop1_length [of "chs @ [?c]" b m' e "i + 1" "p + 1" "get_bh b s"]
      have ne: "length (chs @ [?c]) \<noteq> m" by simp
      from "1.IH"(1) [OF le live refl refl ne' len "1.prems"(2)] le live ne ne'
      show ?thesis by (simp add: unf unf' Let_def)
    qed
  qed
qed

lemma loop1_take:
  "length chs < m \<Longrightarrow> m \<le> m'
     \<Longrightarrow> fst (compare_block_loop1 b m e i p chs s) =
           take m (fst (compare_block_loop1 b m' e i p chs s))"
proof (induction b m e i p chs s rule: compare_block_loop1.induct)
  case (1 b m e i p chs s)
  let ?c = "\<lparr>ino = i, bh1 = Some b, bh2 = None\<rparr>"
  note unf' = compare_block_loop1.simps [of b m' e i p chs s]
  note unf = compare_block_loop1.simps [of b m e i p chs s]
  show ?case
  proof (cases "i \<le> e")
    case False
    with "1.prems" show ?thesis by (simp add: unf unf')
  next
    case le: True
    show ?thesis
    proof (cases "i_links_count (b_data s b p) \<noteq> 0")
      case False
      with "1.IH"(2) [OF le False "1.prems"] le show ?thesis
        by (simp add: unf unf')
    next
      case live: True
      show ?thesis
      proof (cases "length (chs @ [?c]) = m")
        case True
        obtain new where
          "fst (compare_block_loop1 b m' e (i + 1) (p + 1) (chs @ [?c]) (get_bh b s)) =
             (chs @ [?c]) @ new"
          using loop1_out [of b m' e "i + 1" "p + 1" "chs @ [?c]" "get_bh b s"] by auto
        with True le live show ?thesis
          by (auto simp: unf unf' Let_def)
      next
        case False
        with "1.prems" have lt: "length (chs @ [?c]) < m" by simp
        with "1.prems"(2) have ne': "length (chs @ [?c]) \<noteq> m'" by simp
        from "1.IH"(1) [OF le live refl refl False lt "1.prems"(2)] le live False ne'
        show ?thesis by (simp add: unf unf' Let_def)
      qed
    qed
  qed
qed


lemma loop12_length:
  "length chs \<le> length (fst (compare_block_loop12 b1 b2 m e i p1 p2 chs s))"
  using loop12_out [of b1 b2 m e i p1 p2 chs s] by auto

lemma loop12_same:
  "length (fst (compare_block_loop12 b1 b2 m' e i p1 p2 chs s)) < m \<Longrightarrow> m \<le> m'
     \<Longrightarrow> compare_block_loop12 b1 b2 m e i p1 p2 chs s =
         compare_block_loop12 b1 b2 m' e i p1 p2 chs s"
proof (induction b1 b2 m' e i p1 p2 chs s rule: compare_block_loop12.induct)
  case (1 b1 b2 m' e i p1 p2 chs s)
  let ?ci = "changed_inode b1 b2 i (b_data s b1 p1) (b_data s b2 p2) s"
  let ?diff = "i_ctime_nsec (b_data s b1 p1) \<noteq> i_ctime_nsec (b_data s b2 p2) \<or>
               i_ctime (b_data s b1 p1) \<noteq> i_ctime (b_data s b2 p2)"
  note unf' = compare_block_loop12.simps [of b1 b2 m' e i p1 p2 chs s]
  note unf = compare_block_loop12.simps [of b1 b2 m e i p1 p2 chs s]
  show ?case
  proof (cases "i \<le> e")
    case False
    then show ?thesis by (simp add: unf unf')
  next
    case le: True
    show ?thesis
    proof (cases ?diff)
      case False
      with le "1.prems" have
        "length (fst (compare_block_loop12 b1 b2 m' e (i + 1) (p1 + 1) (p2 + 1) chs s)) < m"
        by (simp add: unf')
      with "1.IH"(2) [OF le False] "1.prems"(2) le False show ?thesis
        by (simp add: unf unf')
    next
      case changed: True
      obtain c s1 where ci: "?ci = (c, s1)" by (cases ?ci)
      have ne': "length (chs @ [c]) \<noteq> m'"
        using "1.prems" le changed ci by (auto simp: unf' Let_def)
      with le changed ci "1.prems" have len:
        "length (fst (compare_block_loop12 b1 b2 m' e (i + 1) (p1 + 1) (p2 + 1) (chs @ [c]) s1)) < m"
        by (simp add: unf' Let_def)
      with loop12_length [of "chs @ [c]" b1 b2 m' e "i + 1" "p1 + 1" "p2 + 1" s1]
      have ne: "length (chs @ [c]) \<noteq> m" by simp
      from "1.IH"(1) [OF le changed ci [symmetric] refl refl ne' len "1.prems"(2)]
        le changed ci ne ne'
      show ?thesis by (simp add: unf unf' Let_def)
    qed
  qed
qed

lemma loop12_take:
  "length chs < m \<Longrightarrow> m \<le> m'
     \<Longrightarrow> fst (compare_block_loop12 b1 b2 m e i p1 p2 chs s) =
           take m (fst (compare_block_loop12 b1 b2 m' e i p1 p2 chs s))"
proof (induction b1 b2 m e i p1 p2 chs s rule: compare_block_loop12.induct)
  case (1 b1 b2 m e i p1 p2 chs s)
  let ?ci = "changed_inode b1 b2 i (b_data s b1 p1) (b_data s b2 p2) s"
  let ?diff = "i_ctime_nsec (b_data s b1 p1) \<noteq> i_ctime_nsec (b_data s b2 p2) \<or>
               i_ctime (b_data s b1 p1) \<noteq> i_ctime (b_data s b2 p2)"
  note unf' = compare_block_loop12.simps [of b1 b2 m' e i p1 p2 chs s]
  note unf = compare_block_loop12.simps [of b1 b2 m e i p1 p2 chs s]
  show ?case
  proof (cases "i \<le> e")
    case False
    with "1.prems" show ?thesis by (simp add: unf unf')
  next
    case le: True
    show ?thesis
    proof (cases ?diff)
      case False
      with "1.IH"(2) [OF le False "1.prems"] le show ?thesis
        by (simp add: unf unf')
    next
      case changed: True
      obtain c s1 where ci: "?ci = (c, s1)" by (cases ?ci)
      show ?thesis
      proof (cases "length (chs @ [c]) = m")
        case True
        obtain new where
          "fst (compare_block_loop12 b1 b2 m' e (i + 1) (p1 + 1) (p2 + 1) (chs @ [c]) s1) =
             (chs @ [c]) @ new"
          using loop12_out [of b1 b2 m' e "i + 1" "p1 + 1" "p2 + 1" "chs @ [c]" s1] by auto
        with True le changed ci show ?thesis
          by (auto simp: unf unf' Let_def)
      next
        case False
        with "1.prems" have lt: "length (chs @ [c]) < m" by simp
        with "1.prems"(2) have ne': "length (chs @ [c]) \<noteq> m'" by simp
        from "1.IH"(1) [OF le changed ci [symmetric] refl refl False lt "1.prems"(2)]
          le changed ci False ne'
        show ?thesis by (simp add: unf unf' Let_def)
      qed
    qed
  qed
qed

lemma compare_block_scan_same:
  "length (fst (compare_block_scan f1 f2 ibh1 ibh2 m' e i s)) < m \<Longrightarrow> m \<le> m'
     \<Longrightarrow> compare_block_scan f1 f2 ibh1 ibh2 m e i s = compare_block_scan f1 f2 ibh1 ibh2 m' e i s"
  by (auto simp: compare_block_scan_def loop2_same loop1_same loop12_same split: option.splits)

lemma compare_block_scan_take:
  "0 < m \<Longrightarrow> m \<le> m'
     \<Longrightarrow> fst (compare_block_scan f1 f2 ibh1 ibh2 m e i s) =
           take m (fst (compare_block_scan f1 f2 ibh1 ibh2 m' e i s))"
  by (auto simp: compare_block_scan_def loop2_take loop1_take loop12_take split: option.splits)

lemma compare_block_failed_same:
  assumes "nilfs_ifile_compare_block f1 f2 start d c' s = (n', new', s1')" and "n' < 0"
  shows "nilfs_ifile_compare_block f1 f2 start d c s = (n', new', s1')"
  using assms
  by (auto simp: nilfs_ifile_compare_block_def Let_def split: option.splits if_splits sum.splits prod.splits)

lemma compare_block_same:
  assumes "nilfs_ifile_compare_block f1 f2 start d c' s = (n', new', s1')"
      and "length new' < c" and "c \<le> c'"
  shows "nilfs_ifile_compare_block f1 f2 start d c s = (n', new', s1')"
proof -
  have sc: "\<And>a b e i t chs t'. compare_block_scan f1 f2 a b c' e i t = (chs, t') \<Longrightarrow>
              length chs < c \<Longrightarrow> compare_block_scan f1 f2 a b c e i t = (chs, t')"
    using compare_block_scan_same [of f1 f2 _ _ c' _ _ _ c] assms(3) by (metis fst_conv)
  from assms(1,2) show ?thesis
    by (auto simp: nilfs_ifile_compare_block_def Let_def sc
          split: option.splits if_splits sum.splits prod.splits)
qed

lemma compare_block_take:
  assumes "nilfs_ifile_compare_block f1 f2 start d c' s = (n', new', s1')"
      and "0 \<le> n'" and "0 < c" and "c \<le> c'"
  shows "\<exists>s1. nilfs_ifile_compare_block f1 f2 start d c s =
           (int (length (take c new')), take c new', s1)"
proof -
  have sc: "\<And>a b e i t chs t'. compare_block_scan f1 f2 a b c' e i t = (chs, t') \<Longrightarrow>
              \<exists>t''. compare_block_scan f1 f2 a b c e i t = (take c chs, t'')"
    using compare_block_scan_take [of c c' f1 f2] assms(3,4) by (metis fst_conv prod.collapse)
  have neg: "\<And>e. \<not> 0 \<le> err e" using err_neg by (simp add: not_le)
  from assms(1,2) show ?thesis
    by (auto simp: nilfs_ifile_compare_block_def Let_def neg
          split: option.splits if_splits sum.splits prod.splits dest!: sc)
qed


lemma size_t_of_small: "0 \<le> i \<Longrightarrow> i < 2 ^ 64 \<Longrightarrow> size_t_of i = nat i"
  by (simp add: size_t_of_def)

lemma compare_for_len:
  "nc = int (length chs) \<Longrightarrow> compare_for f1 f2 start m ds nc chs s = (ex, nc', chs', s')
     \<Longrightarrow> (ex = Goto_failed \<longrightarrow> nc' < 0) \<and> (ex \<noteq> Goto_failed \<longrightarrow> nc' = int (length chs')) \<and>
         (\<exists>more. chs' = chs @ more)"
proof (induction ds arbitrary: nc chs s)
  case Nil
  then show ?case by auto
next
  case (Cons d ds)
  obtain n new s1 where blk:
    "nilfs_ifile_compare_block f1 f2 start d (size_t_of (int m - nc)) s = (n, new, s1)"
    by (cases "nilfs_ifile_compare_block f1 f2 start d (size_t_of (int m - nc)) s") auto
  note out = compare_block_out [OF blk]
  show ?case
  proof (cases "n < 0")
    case True
    with Cons.prems(2) blk show ?thesis by auto
  next
    case nonneg: False
    with out have len: "nc + n = int (length (chs @ new))" using Cons.prems(1) by auto
    show ?thesis
    proof (cases "size_t_of (nc + n) = m")
      case True
      with nonneg Cons.prems(2) blk len show ?thesis by auto
    next
      case False
      with nonneg Cons.prems(2) blk have run:
        "compare_for f1 f2 start m ds (nc + n) (chs @ new) s1 = (ex, nc', chs', s')" by auto
      from Cons.IH [OF len run] show ?thesis by auto
    qed
  qed
qed

lemma compare_do_len:
  "nc = int (length chs) \<Longrightarrow> compare_do maxdiffs f1 f2 start m blkoff nc chs s = (n, chs', s')
     \<Longrightarrow> (0 \<le> n \<longrightarrow> n = int (length chs')) \<and> (\<exists>more. chs' = chs @ more)"
proof (induction maxdiffs f1 f2 start m blkoff nc chs s rule: compare_do.induct)
  case (1 maxdiffs f1 f2 start m blkoff nc chs s)
  note unf = compare_do.simps [of maxdiffs f1 f2 start m blkoff nc chs s]
  obtain r s1 where cmp: "nilfs_bmap_compare f1 f2 blkoff maxdiffs s = (r, s1)"
    by (cases "nilfs_bmap_compare f1 f2 blkoff maxdiffs s") auto
  show ?case
  proof (cases r)
    case (Inl e)
    with cmp "1.prems"(2) have "n = err e" "chs' = chs" by (simp_all add: unf)
    with err_neg [of e] show ?thesis by auto
  next
    case (Inr diffs)
    show ?thesis
    proof (cases "diffs = []")
      case True
      with Inr cmp "1.prems"(2) have "n = nc" "chs' = chs" by (simp_all add: unf)
      with "1.prems"(1) show ?thesis by auto
    next
      case ne: False
      obtain ex nc1 chs1 s2 where cf:
        "compare_for f1 f2 start m diffs nc chs s1 = (ex, nc1, chs1, s2)"
        by (cases "compare_for f1 f2 start m diffs nc chs s1") auto
      from compare_for_len [OF "1.prems"(1) cf]
      have neg: "ex = Goto_failed \<longrightarrow> nc1 < 0"
        and len: "ex \<noteq> Goto_failed \<longrightarrow> nc1 = int (length chs1)"
        and pre: "\<exists>more. chs1 = chs @ more" by auto
      show ?thesis
      proof (cases "ex = Loop_end \<and> length diffs = maxdiffs")
        case True
        with Inr cmp ne cf "1.prems"(2) have run:
          "compare_do maxdiffs f1 f2 start m (key (last diffs) + 1) nc1 chs1 s2 = (n, chs', s')"
          by (simp add: unf)
        from True len have len1: "nc1 = int (length chs1)" by simp
        from True pre show ?thesis
          using "1.IH" [OF cmp [symmetric] Inr ne cf [symmetric] _ refl refl _ len1 run]
          by auto
      next
        case False
        with Inr cmp ne cf "1.prems"(2) have "n = nc1" "chs' = chs1"
          by (cases ex; simp add: unf)+
        with neg len pre show ?thesis by (cases ex) auto
      qed
    qed
  qed
qed

lemma compare_for_prefix:
  assumes M: "M \<le> M'" "M' < 2 ^ 64"
  shows "nc = int (length chs) \<Longrightarrow> length chs < M
     \<Longrightarrow> compare_for f1 f2 start M' ds nc chs s = (ex', nc', chs', s') \<Longrightarrow> ex' \<noteq> Goto_failed
     \<Longrightarrow> (length chs' < M \<longrightarrow> compare_for f1 f2 start M ds nc chs s = (ex', nc', chs', s')) \<and>
         (M \<le> length chs' \<longrightarrow>
            (\<exists>s''. compare_for f1 f2 start M ds nc chs s = (Goto_out, int M, take M chs', s'')))"
proof (induction ds arbitrary: nc chs s)
  case Nil
  then show ?case by auto
next
  case (Cons d ds)
  let ?c = "M - length chs" and ?c' = "M' - length chs"
  have c: "0 < ?c" "?c \<le> ?c'" using Cons.prems(2) M by auto
  have sz: "size_t_of (int M - nc) = ?c" "size_t_of (int M' - nc) = ?c'"
    using Cons.prems(1,2) M by (simp_all add: size_t_of_small)
  obtain n' new' s1' where blk':
    "nilfs_ifile_compare_block f1 f2 start d ?c' s = (n', new', s1')"
    by (cases "nilfs_ifile_compare_block f1 f2 start d ?c' s") auto
  note out' = compare_block_out [OF blk']
  have nonneg: "0 \<le> n'"
    using Cons.prems(3,4) blk' sz by (auto split: if_splits)
  with out' have n': "n' = int (length new')" by simp
  have len': "nc + n' = int (length (chs @ new'))" using n' Cons.prems(1) by simp
  from compare_for_len [OF Cons.prems(1,3)] obtain more where more: "chs' = chs @ more" by auto
  show ?case
  proof (cases "length new' < ?c")
    case True
    from compare_block_same [OF blk' True c(2)]
    have blk: "nilfs_ifile_compare_block f1 f2 start d ?c s = (n', new', s1')" .
    from True have lt: "length (chs @ new') < M" by simp
    with M have "nc + n' < 2 ^ 64" "nat (nc + n') \<noteq> M" "nat (nc + n') \<noteq> M'"
      using len' by auto
    with nonneg Cons.prems(1) have ne: "size_t_of (nc + n') \<noteq> M" "size_t_of (nc + n') \<noteq> M'"
      by (simp_all add: size_t_of_small)
    with Cons.prems(3) blk' sz nonneg have run':
      "compare_for f1 f2 start M' ds (nc + n') (chs @ new') s1' = (ex', nc', chs', s')" by simp
    from blk sz nonneg ne have run:
      "compare_for f1 f2 start M (d # ds) nc chs s =
         compare_for f1 f2 start M ds (nc + n') (chs @ new') s1'" by simp
    from Cons.IH [OF len' lt run' Cons.prems(4)] run show ?thesis by simp
  next
    case False
    from compare_block_take [OF blk' nonneg c] obtain s1 where
      blk: "nilfs_ifile_compare_block f1 f2 start d ?c s = (int (length (take ?c new')), take ?c new', s1)"
      by auto
    from False have tk: "length (take ?c new') = ?c" by simp
    have "nc + int ?c = int M" using Cons.prems(1,2) by simp
    with M have full: "size_t_of (nc + int ?c) = M" by (simp add: size_t_of_small)
    from blk sz tk full have run:
      "compare_for f1 f2 start M (d # ds) nc chs s = (Goto_out, nc + int ?c, chs @ take ?c new', s1)"
      by simp
    from compare_for_len [OF len', of f1 f2 start M' ds s1' ex' nc' chs' s']
      Cons.prems(3) blk' sz nonneg n'
    have "\<exists>more. chs' = (chs @ new') @ more"
      by (auto split: if_splits)
    then obtain more' where chs': "chs' = (chs @ new') @ more'" by auto
    from False Cons.prems(2) have "take M chs' = chs @ take ?c new'" "M \<le> length chs'"
      unfolding chs' by auto
    with run \<open>nc + int ?c = int M\<close> show ?thesis by auto
  qed
qed


lemma compare_do_prefix:
  "M \<le> M' \<Longrightarrow> M' < 2 ^ 64 \<Longrightarrow> nc = int (length chs) \<Longrightarrow> length chs < M
     \<Longrightarrow> compare_do maxdiffs f1 f2 start M' blkoff nc chs s = (n', chs', s') \<Longrightarrow> 0 \<le> n'
     \<Longrightarrow> \<exists>s''. compare_do maxdiffs f1 f2 start M blkoff nc chs s =
               (int (min M (length chs')), take M chs', s'')"
proof (induction maxdiffs f1 f2 start M' blkoff nc chs s rule: compare_do.induct)
  case (1 maxdiffs f1 f2 start M' blkoff nc chs s)
  note unf' = compare_do.simps [of maxdiffs f1 f2 start M' blkoff nc chs s]
  note unf = compare_do.simps [of maxdiffs f1 f2 start M blkoff nc chs s]
  note M = "1.prems"(1,2)
  obtain r s1 where cmp: "nilfs_bmap_compare f1 f2 blkoff maxdiffs s = (r, s1)"
    by (cases "nilfs_bmap_compare f1 f2 blkoff maxdiffs s") auto
  show ?case
  proof (cases r)
    case (Inl e)
    with cmp "1.prems"(5) have "n' = err e" by (simp add: unf')
    with err_neg [of e] "1.prems"(6) show ?thesis by simp
  next
    case (Inr diffs)
    show ?thesis
    proof (cases "diffs = []")
      case True
      with Inr cmp "1.prems"(5) have res: "n' = nc" "chs' = chs" by (simp_all add: unf')
      from True Inr cmp have "compare_do maxdiffs f1 f2 start M blkoff nc chs s = (nc, chs, s1)"
        by (simp add: unf)
      with res "1.prems"(3,4) show ?thesis by simp
    next
      case ne: False
      obtain ex' nc1 chs1 s2 where cf':
        "compare_for f1 f2 start M' diffs nc chs s1 = (ex', nc1, chs1, s2)"
        by (cases "compare_for f1 f2 start M' diffs nc chs s1") auto
      from compare_for_len [OF "1.prems"(3) cf']
      have neg: "ex' = Goto_failed \<longrightarrow> nc1 < 0"
        and len: "ex' \<noteq> Goto_failed \<longrightarrow> nc1 = int (length chs1)" by auto
      have ok: "ex' \<noteq> Goto_failed"
      proof
        assume f: "ex' = Goto_failed"
        with Inr cmp ne cf' "1.prems"(5) have "n' = nc1" by (simp add: unf')
        with f neg "1.prems"(6) show False by simp
      qed
      with len have len1: "nc1 = int (length chs1)" by simp
      note pre = compare_for_prefix [OF M "1.prems"(3,4) cf' ok]
      show ?thesis
      proof (cases "length chs1 < M")
        case short: True
        with pre have cf: "compare_for f1 f2 start M diffs nc chs s1 = (ex', nc1, chs1, s2)"
          by simp
        show ?thesis
        proof (cases "ex' = Loop_end \<and> length diffs = maxdiffs")
          case True
          with Inr cmp ne cf' "1.prems"(5) have run':
            "compare_do maxdiffs f1 f2 start M' (key (last diffs) + 1) nc1 chs1 s2 = (n', chs', s')"
            by (simp add: unf')
          from True Inr cmp ne cf have run:
            "compare_do maxdiffs f1 f2 start M blkoff nc chs s =
               compare_do maxdiffs f1 f2 start M (key (last diffs) + 1) nc1 chs1 s2"
            by (simp add: unf)
          from True show ?thesis
            using "1.IH" [OF cmp [symmetric] Inr ne cf' [symmetric] _ refl refl _
                            M len1 short run' "1.prems"(6)] run
            by simp
        next
          case False
          with Inr cmp ne cf' "1.prems"(5) ok have "n' = nc1" "chs' = chs1"
            by (cases ex'; simp add: unf')+
          moreover from False Inr cmp ne cf ok have
            "compare_do maxdiffs f1 f2 start M blkoff nc chs s = (nc1, chs1, s2)"
            by (cases ex'; simp add: unf)
          ultimately show ?thesis using short len1 by simp
        qed
      next
        case long: False
        with pre obtain s'' where cf:
          "compare_for f1 f2 start M diffs nc chs s1 = (Goto_out, int M, take M chs1, s'')"
          by auto
        with Inr cmp ne have run:
          "compare_do maxdiffs f1 f2 start M blkoff nc chs s = (int M, take M chs1, s'')"
          by (simp add: unf)
        have "\<exists>more. chs' = chs1 @ more"
        proof (cases "ex' = Loop_end \<and> length diffs = maxdiffs")
          case True
          with Inr cmp ne cf' "1.prems"(5) have
            "compare_do maxdiffs f1 f2 start M' (key (last diffs) + 1) nc1 chs1 s2 = (n', chs', s')"
            by (simp add: unf')
          from compare_do_len [OF len1 this] show ?thesis by simp
        next
          case False
          with Inr cmp ne cf' "1.prems"(5) ok have "chs' = chs1"
            by (cases ex'; simp add: unf')
          then show ?thesis by simp
        qed
        then obtain more where "chs' = chs1 @ more" by auto
        with long have "take M chs' = take M chs1" "min M (length chs') = M" by auto
        with run show ?thesis by simp
      qed
    qed
  qed
qed

text \<open>
  So for a capacity of at least one: when the run with a larger capacity (below
  \<open>2 ^ 64\<close>) succeeds with the records \<open>changes'\<close>, the run with the smaller
  capacity \<open>cap\<close> returns the first \<open>cap\<close> of them, all of them if there are
  fewer, and their number.
\<close>

lemma compare_prefix:
  assumes "0 < cap" and "cap \<le> cap'" and "cap' < 2 ^ 64"
      and "nilfs_ifile_compare maxdiffs f1 f2 start cap' s = (n', changes', s')" and "0 \<le> n'"
  shows "\<exists>s''. nilfs_ifile_compare maxdiffs f1 f2 start cap s =
           (int (min cap (length changes')), take cap changes', s'')"
proof (cases "page_avail s")
  case False
  with assms(4,5) err_neg [of ENOMEM] show ?thesis by (simp add: nilfs_ifile_compare_def)
next
  case True
  with assms(4) have
    "compare_do maxdiffs f1 f2 start cap' (palloc_entry_blkoff f1 start) 0 [] s = (n', changes', s')"
    by (simp add: nilfs_ifile_compare_def)
  from compare_do_prefix [OF assms(2,3) _ _ this assms(5)] assms(1) True show ?thesis
    by (simp add: nilfs_ifile_compare_def)
qed

text \<open>
  After \<open>goto failed\<close> the release loop of \<open>nilfs_ifile_compare\<close> leaves the state
  as it is, whatever was written before.
\<close>

lemma compare_failed_releases_nothing:
  assumes "nc = int (length chs)"
      and "compare_for f1 f2 start m ds nc chs s = (Goto_failed, nc', chs', s')"
  shows "compare_failed 0 nc' chs' s' = s'"
  using compare_for_len [OF assms] by (simp add: compare_failed_neg)

subsection \<open>Comparing: capacity 0\<close>

text \<open>
  C3. With \<open>maxchanges = 0\<close> and a target that has the block of the live inodes 0
  and 1, \<open>nilfs_ifile_compare\<close> fetches the block, writes two records and returns
  2: the test \<open>n == maxchanges\<close> comes after \<open>n++\<close> and never holds.
\<close>

theorem compare_zero_capacity_writes:
  "case nilfs_ifile_compare 170 empty_ifile one_block_ifile 0 0 small_state of
     (n, changes, s') \<Rightarrow>
       n = 2 \<and>
       changes = [\<lparr>ino = 0, bh1 = None, bh2 = Some 7\<rparr>, \<lparr>ino = 1, bh1 = None, bh2 = Some 7\<rparr>] \<and>
       calls s' = [Bmap_compare 2 170, Get_entry_block 2 0 False, Get_bh 7, Get_bh 7,
                   Brelse None, Brelse (Some 7)]"
  by code_simp

text \<open>
  C5. On the same inode files two inodes differ, as the run with capacity 10 shows;
  the run with capacity 0 returns both records, not none. (For a capacity of at least
  one the result is the prefix of that length, by \<open>compare_prefix\<close>.)
\<close>

theorem compare_zero_capacity_not_truncated:
  "fst (nilfs_ifile_compare 170 empty_ifile one_block_ifile 0 10 small_state) = 2 \<and>
   length (fst (snd (nilfs_ifile_compare 170 empty_ifile one_block_ifile 0 10 small_state))) = 2 \<and>
   fst (nilfs_ifile_compare 170 empty_ifile one_block_ifile 0 0 small_state) = 2 \<and>
   length (fst (snd (nilfs_ifile_compare 170 empty_ifile one_block_ifile 0 0 small_state))) = 2"
  by code_simp

subsection \<open>Comparing: a record without any block\<close>

text \<open>
  C4. The block of the inodes 0 and 1 exists on both sides, the change times differ
  and the link count is 0 on both sides: \<open>nilfs_ifile_compare\<close> writes a record
  with \<open>bh1\<close> and \<open>bh2\<close> both NULL for each of the two inodes.
\<close>

theorem compare_emits_both_absent:
  "case nilfs_ifile_compare 170 old_ifile new_ifile 0 10 small_state of
     (n, changes, s') \<Rightarrow>
       n = 2 \<and>
       changes = [\<lparr>ino = 0, bh1 = None, bh2 = None\<rparr>, \<lparr>ino = 1, bh1 = None, bh2 = None\<rparr>]"
  by code_simp

end
